theory Spec2Isabelle
  imports Main
begin

section \<open>The segment trie of the router (package pi, type \<open>_route\<close>)\<close>

text \<open>
  The router keeps its routes in a trie of \<open>_route\<close> nodes. Nodes are shared through
  pointers (a child is stored under two keys of its parent's \<open>sub\<close> map, every node
  points back to its parent, and \<open>Search\<close> compares pointers), so the embedding keeps
  an explicit store: a list of nodes, a pointer being an index into it and \<open>nil\<close>
  being \<open>None\<close>. A node is allocated by appending to the store.
\<close>

subsection \<open>Requests, errors and handlers\<close>

text \<open>
  Modelled from the spec: the \<open>Error\<close> type and \<open>NewError\<close> are not part of the
  sources at hand. A handler returns no error, a structured \<open>*Error\<close> carrying a status
  code and a message, or some other error of which only its \<open>Error()\<close> text matters.
\<close>

datatype err =
  Error int string
| OtherError string

definition NewError :: "int \<Rightarrow> string \<Rightarrow> err" where
  "NewError c msg = Error c msg"

definition StatusInternalServerError :: int where
  "StatusInternalServerError = 500"

text \<open>
  Modelled from the spec: the \<open>Context\<close> interface is not part of the sources at hand.
  Of a context the dispatcher reads \<open>Method()\<close> and calls \<open>Code\<close> and \<open>Json\<close>; the
  model records the status code set last and the values passed to \<open>Json\<close> in order.
\<close>

record Context =
  Method :: string
  status :: int
  written :: "err list"

definition Code :: "int \<Rightarrow> Context \<Rightarrow> Context" where
  "Code c ctx = ctx\<lparr>status := c\<rparr>"

definition Json :: "err \<Rightarrow> Context \<Rightarrow> Context" where
  "Json v ctx = ctx\<lparr>written := written ctx @ [v]\<rparr>"

text \<open>A \<open>HandlerFunc\<close> works on the context and returns an error or \<open>nil\<close>.\<close>

type_synonym HandlerFunc = "Context \<Rightarrow> Context \<times> err option"

text \<open>
  Modelled from the spec: \<open>HandlerFunc.Connect\<close> is not part of the sources at hand.
  The spec describes it as an ordered list of transform functions applied to a base
  handler, producing one composed callable, the chain being taken in registration order;
  here the middleware registered first becomes the outermost wrapper.
\<close>

definition Connect :: "HandlerFunc \<Rightarrow> (HandlerFunc \<Rightarrow> HandlerFunc) list \<Rightarrow> HandlerFunc" where
  "Connect h chain = foldr (\<lambda>m acc. m acc) chain h"

subsection \<open>Nodes and the store\<close>

text \<open>
  Go reads a \<open>nil\<close> map like an empty one and panics on a write to it. \<open>sub\<close> is
  only written by \<open>Insert\<close>, right after it is made when \<open>nil\<close>, so a plain map models
  it. \<open>hmap\<close> and \<open>named\<close> are written without such a guard (\<open>For\<close>, \<open>Name\<close>):
  they are \<open>None\<close> while \<open>nil\<close>.
\<close>

record route =
  parent :: "nat option"
  sub :: "string \<rightharpoonup> nat"
  hmap :: "(string \<rightharpoonup> HandlerFunc) option"
  named :: "(string \<rightharpoonup> nat) option"
  pattern :: string
  placeholder :: string
  name :: string
  cc :: "(HandlerFunc \<Rightarrow> HandlerFunc) list"
  hasDynamicChild :: bool
  hasWildcardChild :: bool

type_synonym store = "route list"

datatype panic = NilDereference | IndexOutOfRange | NilMapWrite

definition dynamic :: char where "dynamic = CHR '':''"
definition wildcard :: char where "wildcard = CHR ''*''"
definition anyone :: string where "anyone = ''*''"

definition createRootRoute :: store where
  "createRootRoute =
     [\<lparr>parent = None, sub = Map.empty, hmap = Some Map.empty, named = Some Map.empty,
       pattern = [], placeholder = [], name = [], cc = [],
       hasDynamicChild = False, hasWildcardChild = False\<rparr>]"

subsection \<open>Paths: \<open>strings.Split\<close>, \<open>strings.Join\<close>, \<open>path.Clean\<close>\<close>

text \<open>\<open>strings.Split(s, "/")\<close>: one more piece than there are separators.\<close>

fun Split :: "string \<Rightarrow> string list" where
  "Split [] = [[]]"
| "Split (c # cs) =
     (if c = CHR ''/'' then [] # Split cs
      else (case Split cs of [] \<Rightarrow> [[c]] | x # xs \<Rightarrow> (c # x) # xs))"

text \<open>\<open>strings.Join(elems, "/")\<close>.\<close>

fun Join :: "string list \<Rightarrow> string" where
  "Join [] = []"
| "Join [x] = x"
| "Join (x # y # ys) = x @ CHR ''/'' # Join (y # ys)"

text \<open>
  \<open>path.Clean\<close> of the Go library, by its documented rules, on the elements between
  slashes: empty elements and \<open>.\<close> are dropped; \<open>..\<close> removes the element before it when
  there is one that is not itself a kept \<open>..\<close>, is dropped at the start of a rooted path
  and is kept at the start of an unrooted one. \<open>out\<close> is the output so far and \<open>dotdot\<close>
  the number of its leading elements that may not be removed. The empty result is
  \<open>.\<close>, the rooted one starts with a slash.
\<close>

fun clean_elems :: "bool \<Rightarrow> string list \<Rightarrow> string list \<Rightarrow> nat \<Rightarrow> string list" where
  "clean_elems rooted [] out dotdot = out"
| "clean_elems rooted (e # es) out dotdot =
     (if e = [] \<or> e = ''.'' then clean_elems rooted es out dotdot
      else if e = ''..'' then
        (if length out > dotdot then clean_elems rooted es (butlast out) dotdot
         else if \<not> rooted then clean_elems rooted es (out @ [''..'']) (Suc (length out))
         else clean_elems rooted es out dotdot)
      else clean_elems rooted es (out @ [e]) dotdot)"

definition Clean :: "string \<Rightarrow> string" where
  "Clean path =
     (if path = [] then ''.''
      else
        let rooted = (hd path = CHR ''/'');
            out = clean_elems rooted (Split path) [] 0
        in if rooted then CHR ''/'' # Join out
           else if out = [] then ''.'' else Join out)"

subsection \<open>Captured parameters: \<open>url.Values\<close>\<close>

type_synonym Values = "string \<rightharpoonup> string list"

definition Add :: "string \<Rightarrow> string \<Rightarrow> Values \<Rightarrow> Values" where
  "Add key v vals = vals(key \<mapsto> (case vals key of None \<Rightarrow> [] | Some vs \<Rightarrow> vs) @ [v])"

definition Has :: "Values \<Rightarrow> string \<Rightarrow> bool" where
  "Has vals key = (vals key \<noteq> None)"

definition Get :: "Values \<Rightarrow> string \<Rightarrow> string" where
  "Get vals key = (case vals key of None \<Rightarrow> [] | Some [] \<Rightarrow> [] | Some (v # _) \<Rightarrow> v)"

definition Del :: "string \<Rightarrow> Values \<Rightarrow> Values" where
  "Del key vals = vals(key := None)"

subsection \<open>Insert\<close>

text \<open>
  One round of the loop of \<open>Insert\<close> for a segment that \<open>current\<close> has no child for:
  the new node is allocated at the end of the store, registered under the reserved key
  when its pattern starts with a marker, and then under the segment itself.
\<close>

definition new_child :: "store \<Rightarrow> nat \<Rightarrow> string \<Rightarrow> store" where
  "new_child h current seg =
     (let nxt = length h;
          node = \<lparr>parent = Some current, sub = Map.empty, hmap = None, named = None,
                  pattern = seg, placeholder = seg, name = [], cc = [],
                  hasDynamicChild = False, hasWildcardChild = False\<rparr>;
          cur = h ! current
      in if seg \<noteq> [] \<and> hd seg = dynamic then
           h[current := cur\<lparr>hasDynamicChild := True,
                            sub := ((sub cur)([dynamic] \<mapsto> nxt))(seg \<mapsto> nxt)\<rparr>]
             @ [node\<lparr>placeholder := tl seg\<rparr>]
         else if seg \<noteq> [] \<and> hd seg = wildcard then
           h[current := cur\<lparr>hasWildcardChild := True,
                            sub := ((sub cur)([wildcard] \<mapsto> nxt))(seg \<mapsto> nxt)\<rparr>]
             @ [node\<lparr>placeholder := tl seg\<rparr>]
         else
           h[current := cur\<lparr>sub := (sub cur)(seg \<mapsto> nxt)\<rparr>] @ [node])"

fun insert_loop :: "store \<Rightarrow> nat \<Rightarrow> string list \<Rightarrow> store \<times> nat" where
  "insert_loop h current [] = (h, current)"
| "insert_loop h current (seg # segs) =
     (case sub (h ! current) seg of
        Some nxt \<Rightarrow> insert_loop h nxt segs
      | None \<Rightarrow> insert_loop (new_child h current seg) (length h) segs)"

definition Insert ::
  "store \<Rightarrow> nat \<Rightarrow> string \<Rightarrow> (HandlerFunc \<Rightarrow> HandlerFunc) list \<Rightarrow> store \<times> nat" where
  "Insert h p rt chain =
     (case insert_loop h p (Split (Clean rt)) of
        (h', current) \<Rightarrow>
          let n = h' ! current;
              n' = n\<lparr>hmap := (case hmap n of None \<Rightarrow> Some Map.empty | Some m \<Rightarrow> Some m),
                     cc := cc n @ chain\<rparr>
          in (h'[current := n'], current))"

subsection \<open>Search\<close>

text \<open>
  The inner loop of \<open>Search\<close> (\<open>for current.parent != nil\<close>) leaves in one of three
  ways: \<open>continue SEARCH\<close> with a new cursor (\<open>Resume\<close>, carrying the decremented
  index, which the post statement of the outer loop increments), a \<open>return\<close>, or a
  panic. The index is an \<open>int\<close> inside this loop, as \<open>i--\<close> is not guarded; an index
  expression out of range panics. A parent whose flag is set while the reserved key is
  missing yields a \<open>nil\<close> \<open>next\<close>, which differs from \<open>current\<close> and is then
  dereferenced. Not returning is the value \<open>None\<close>.
\<close>

datatype outcome =
  Resume nat nat Values
| Return "nat option" Values
| Panicked panic

partial_function (option) backtrack ::
  "store \<Rightarrow> string list \<Rightarrow> nat \<Rightarrow> int \<Rightarrow> Values \<Rightarrow> outcome option" where
  "backtrack h chunks current i captured =
     (case parent (h ! current) of
        None \<Rightarrow> Some (Return None captured)
      | Some par \<Rightarrow>
          (if hasDynamicChild (h ! par) \<and> sub (h ! par) [dynamic] \<noteq> Some current then
             (case sub (h ! par) [dynamic] of
                None \<Rightarrow> Some (Panicked NilDereference)
              | Some nxt \<Rightarrow>
                  (if 0 \<le> i - 1 \<and> i - 1 < int (length chunks)
                   then Some (Resume nxt (nat (i - 1))
                          (Add (placeholder (h ! nxt)) (chunks ! nat (i - 1)) captured))
                   else Some (Panicked IndexOutOfRange)))
           else if hasWildcardChild (h ! par) \<and> sub (h ! par) [wildcard] \<noteq> Some current then
             (case sub (h ! par) [wildcard] of
                None \<Rightarrow> Some (Panicked NilDereference)
              | Some nxt \<Rightarrow>
                  (if 0 \<le> i - 1 \<and> i - 1 \<le> int (length chunks)
                   then Some (Return (Some nxt)
                          (Add (placeholder (h ! nxt)) (Join (drop (nat (i - 1)) chunks)) captured))
                   else Some (Panicked IndexOutOfRange)))
           else backtrack h chunks par (i - 1) captured))"

text \<open>
  The outer loop. At its head the index is never negative (it starts at 0 and every
  \<open>continue\<close> follows a successful read of \<open>chunks[i]\<close>), so it is a \<open>nat\<close> here.
  The result is the node found (\<open>None\<close> for \<open>nil\<close>) with the captured values as the
  call leaves them.
\<close>

partial_function (option) search_loop ::
  "store \<Rightarrow> string list \<Rightarrow> nat \<Rightarrow> nat \<Rightarrow> Values \<Rightarrow> (panic + nat option \<times> Values) option" where
  "search_loop h chunks current i captured =
     (if i < length chunks then
        (case sub (h ! current) (chunks ! i) of
           Some nxt \<Rightarrow> search_loop h chunks nxt (Suc i) captured
         | None \<Rightarrow>
            (case (if hasDynamicChild (h ! current) then sub (h ! current) [dynamic] else None) of
               Some nxt \<Rightarrow>
                 search_loop h chunks nxt (Suc i)
                   (Add (placeholder (h ! nxt)) (chunks ! i) captured)
             | None \<Rightarrow>
                (case (if hasWildcardChild (h ! current) then sub (h ! current) [wildcard]
                       else None) of
                   Some nxt \<Rightarrow>
                     Some (Inr (Some nxt,
                       Add (placeholder (h ! nxt)) (Join (drop i chunks)) captured))
                 | None \<Rightarrow>
                    (case backtrack h chunks current (int i) captured of
                       None \<Rightarrow> None
                     | Some (Resume nxt j captured') \<Rightarrow>
                         search_loop h chunks nxt (Suc j) captured'
                     | Some (Return r captured') \<Rightarrow> Some (Inr (r, captured'))
                     | Some (Panicked e) \<Rightarrow> Some (Inl e)))))
      else Some (Inr (Some current, captured)))"

definition Search ::
  "store \<Rightarrow> nat \<Rightarrow> string \<Rightarrow> Values \<Rightarrow> (panic + nat option \<times> Values) option" where
  "Search h p rt captured = search_loop h (Split (Clean rt)) p 0 captured"

subsection \<open>Registration of handlers\<close>

definition MethodGet :: string where "MethodGet = ''GET''"
definition MethodPost :: string where "MethodPost = ''POST''"
definition MethodPut :: string where "MethodPut = ''PUT''"
definition MethodDelete :: string where "MethodDelete = ''DELETE''"
definition MethodPatch :: string where "MethodPatch = ''PATCH''"
definition MethodOptions :: string where "MethodOptions = ''OPTIONS''"
definition MethodHead :: string where "MethodHead = ''HEAD''"

text \<open>\<open>For\<close> writes to \<open>p.hmap\<close>, which panics while that map is \<open>nil\<close>.\<close>

definition For :: "store \<Rightarrow> nat \<Rightarrow> string \<Rightarrow> HandlerFunc \<Rightarrow> panic + store" where
  "For h p meth f =
     (case hmap (h ! p) of
        None \<Rightarrow> Inl NilMapWrite
      | Some m \<Rightarrow> Inr (h[p := (h ! p)\<lparr>hmap := Some (m(meth \<mapsto> Connect f (cc (h ! p))))\<rparr>]))"

definition Get_route :: "store \<Rightarrow> nat \<Rightarrow> HandlerFunc \<Rightarrow> panic + store" where
  "Get_route h p f = For h p MethodGet f"

definition Post :: "store \<Rightarrow> nat \<Rightarrow> HandlerFunc \<Rightarrow> panic + store" where
  "Post h p f = For h p MethodPost (Connect f (cc (h ! p)))"

definition Put :: "store \<Rightarrow> nat \<Rightarrow> HandlerFunc \<Rightarrow> panic + store" where
  "Put h p f = For h p MethodPut (Connect f (cc (h ! p)))"

definition Delete :: "store \<Rightarrow> nat \<Rightarrow> HandlerFunc \<Rightarrow> panic + store" where
  "Delete h p f = For h p MethodDelete (Connect f (cc (h ! p)))"

definition Patch :: "store \<Rightarrow> nat \<Rightarrow> HandlerFunc \<Rightarrow> panic + store" where
  "Patch h p f = For h p MethodPatch (Connect f (cc (h ! p)))"

definition Options :: "store \<Rightarrow> nat \<Rightarrow> HandlerFunc \<Rightarrow> panic + store" where
  "Options h p f = For h p MethodOptions (Connect f (cc (h ! p)))"

definition Head :: "store \<Rightarrow> nat \<Rightarrow> HandlerFunc \<Rightarrow> panic + store" where
  "Head h p f = For h p MethodHead (Connect f (cc (h ! p)))"

definition Any :: "store \<Rightarrow> nat \<Rightarrow> HandlerFunc \<Rightarrow> panic + store" where
  "Any h p f = For h p [wildcard] (Connect f (cc (h ! p)))"

subsection \<open>Invoke\<close>

text \<open>
  The handler works on the context it is given; \<open>Invoke\<close> returns whether a handler
  was found, together with the context as the call leaves it. \<open>lookup_handler\<close> is
  the read \<open>p.hmap[method]\<close>, which finds nothing in a \<open>nil\<close> map.
\<close>

definition lookup_handler :: "store \<Rightarrow> nat \<Rightarrow> string \<Rightarrow> HandlerFunc option" where
  "lookup_handler h p meth = (case hmap (h ! p) of None \<Rightarrow> None | Some m \<Rightarrow> m meth)"

definition Invoke :: "store \<Rightarrow> nat \<Rightarrow> Context \<Rightarrow> bool \<times> Context" where
  "Invoke h p ctx =
     (case (case lookup_handler h p (Method ctx) of
              Some fn \<Rightarrow> Some fn
            | None \<Rightarrow> lookup_handler h p anyone) of
        None \<Rightarrow> (False, ctx)
      | Some fn \<Rightarrow>
          (case fn ctx of
             (ctx', None) \<Rightarrow> (True, ctx')
           | (ctx', Some (Error c msg)) \<Rightarrow> (True, Json (Error c msg) (Code c ctx'))
           | (ctx', Some (OtherError d)) \<Rightarrow>
               (True, Json (NewError StatusInternalServerError d)
                        (Code StatusInternalServerError ctx'))))"

subsection \<open>Name and From\<close>

text \<open>The walk \<open>for root.parent != nil\<close> up to the root.\<close>

partial_function (option) find_root :: "store \<Rightarrow> nat \<Rightarrow> nat option" where
  "find_root h root =
     (case parent (h ! root) of None \<Rightarrow> Some root | Some par \<Rightarrow> find_root h par)"

definition Name :: "store \<Rightarrow> nat \<Rightarrow> string \<Rightarrow> (panic + store) option" where
  "Name h p nm =
     (let h1 = h[p := (h ! p)\<lparr>name := nm\<rparr>]
      in case find_root h1 p of
           None \<Rightarrow> None
         | Some root \<Rightarrow>
             (case named (h1 ! root) of
                None \<Rightarrow> Some (Inl NilMapWrite)
              | Some m \<Rightarrow> Some (Inr (h1[root := (h1 ! root)\<lparr>named := Some (m(nm \<mapsto> p))\<rparr>]))))"

text \<open>
  The loop of \<open>From\<close> that collects the segments from the named node upwards; it
  removes from \<open>v\<close> every key it uses.
\<close>

partial_function (option) from_loop ::
  "store \<Rightarrow> nat option \<Rightarrow> Values \<Rightarrow> string list \<Rightarrow> (string list \<times> Values) option" where
  "from_loop h t v seg =
     (case t of
        None \<Rightarrow> Some (seg, v)
      | Some n \<Rightarrow>
          (if pattern (h ! n) = [] then Some (seg, v)
           else if Has v (placeholder (h ! n)) then
             from_loop h (parent (h ! n)) (Del (placeholder (h ! n)) v)
               (seg @ [Get v (placeholder (h ! n))])
           else from_loop h (parent (h ! n)) v (seg @ [pattern (h ! n)])))"

text \<open>
  The buffer is written from the last collected segment to the first, a slash before
  each. \<open>Bytes()\<close> of a buffer nothing was written to is the \<open>nil\<close> slice, as is the
  result for an unknown name: both are \<open>None\<close>. The second component is \<open>v\<close> as the
  call leaves it. \<open>lookup_named\<close> is the read \<open>root.named[name]\<close>.
\<close>

definition write_segments :: "string list \<Rightarrow> string option" where
  "write_segments seg =
     (if seg = [] then None else Some (concat (map (\<lambda>s. CHR ''/'' # s) (rev seg))))"

definition lookup_named :: "store \<Rightarrow> nat \<Rightarrow> string \<Rightarrow> nat option" where
  "lookup_named h root nm = (case named (h ! root) of None \<Rightarrow> None | Some m \<Rightarrow> m nm)"

definition From :: "store \<Rightarrow> nat \<Rightarrow> string \<Rightarrow> Values \<Rightarrow> (string option \<times> Values) option" where
  "From h p nm v =
     (case find_root h p of
        None \<Rightarrow> None
      | Some root \<Rightarrow>
          (case lookup_named h root nm of
             None \<Rightarrow> Some (None, v)
           | Some t \<Rightarrow>
               (case from_loop h (Some t) v [] of
                  None \<Rightarrow> None
                | Some (seg, v') \<Rightarrow> Some (write_segments seg, v'))))"

subsection \<open>Tries of registered routes\<close>

text \<open>
  The tries the examples below are about, each built by \<open>Insert\<close> on the root of a
  fresh trie; a pair holds the store after the call and the node it returned.
\<close>

definition reg_a_x_c :: "store \<times> nat" where
  "reg_a_x_c = Insert createRootRoute 0 ''/a/:x/c'' []"

definition reg_a_b_d :: "store \<times> nat" where
  "reg_a_b_d = Insert (fst reg_a_x_c) 0 ''/a/b/d'' []"

text \<open>The same two routes, registered in the other order.\<close>

definition reg_a_b_d_first :: "store \<times> nat" where
  "reg_a_b_d_first = Insert createRootRoute 0 ''/a/b/d'' []"

definition reg_a_x_c_second :: "store \<times> nat" where
  "reg_a_x_c_second = Insert (fst reg_a_b_d_first) 0 ''/a/:x/c'' []"

definition reg_a_w :: "store \<times> nat" where
  "reg_a_w = Insert (fst reg_a_x_c) 0 ''/a/*w'' []"

definition reg_users_id :: "store \<times> nat" where
  "reg_users_id = Insert createRootRoute 0 ''/users/:id'' []"

definition reg_users_me :: "store \<times> nat" where
  "reg_users_me = Insert (fst reg_users_id) 0 ''/users/me'' []"

definition reg_users_me_first :: "store \<times> nat" where
  "reg_users_me_first = Insert createRootRoute 0 ''/users/me'' []"

definition reg_users_id_second :: "store \<times> nat" where
  "reg_users_id_second = Insert (fst reg_users_me_first) 0 ''/users/:id'' []"

definition reg_files_rest :: "store \<times> nat" where
  "reg_files_rest = Insert createRootRoute 0 ''/files/*rest'' []"

text \<open>A route that continues below the wildcard node.\<close>

definition reg_files_rest_c :: "store \<times> nat" where
  "reg_files_rest_c = Insert (fst reg_files_rest) 0 ''/files/*rest/c'' []"

subsection \<open>Handlers and middleware of the examples\<close>

text \<open>
  A handler that succeeds, one that fails with a structured error, one that fails with
  another error, and a middleware that counts in the status code how often it runs
  before it calls the handler it wraps.
\<close>

definition done_handler :: HandlerFunc where
  "done_handler ctx = (ctx, None)"

definition missing_handler :: HandlerFunc where
  "missing_handler ctx = (ctx, Some (Error 404 ''no such user''))"

definition broken_handler :: HandlerFunc where
  "broken_handler ctx = (ctx, Some (OtherError ''boom''))"

definition counting :: "HandlerFunc \<Rightarrow> HandlerFunc" where
  "counting nxt ctx = nxt (ctx\<lparr>status := status ctx + 1\<rparr>)"

definition request :: "string \<Rightarrow> Context" where
  "request m = \<lparr>Method = m, status = 0, written = []\<rparr>"

definition reg_x_counting :: "store \<times> nat" where
  "reg_x_counting = Insert createRootRoute 0 ''/x'' [counting]"

text \<open>
  What the handler stored for the method \<open>meth\<close> at node \<open>p\<close> leaves in the status code of a
  fresh request, after a registration that did not panic.
\<close>

definition stored_status :: "panic + store \<Rightarrow> nat \<Rightarrow> string \<Rightarrow> int option" where
  "stored_status r p meth =
     (case r of
        Inl e \<Rightarrow> None
      | Inr h \<Rightarrow> map_option (\<lambda>fn. status (fst (fn (request meth)))) (lookup_handler h p meth))"

definition reg_x :: "store \<times> nat" where
  "reg_x = Insert createRootRoute 0 ''/x'' []"

definition after :: "panic + store \<Rightarrow> store" where
  "after r = (case r of Inl e \<Rightarrow> [] | Inr h \<Rightarrow> h)"

definition reg_x_get :: store where
  "reg_x_get = after (Get_route (fst reg_x) (snd reg_x) missing_handler)"

definition reg_x_any :: store where
  "reg_x_any = after (Any (fst reg_x) (snd reg_x) broken_handler)"

text \<open>The route \<open>/users/:id\<close> named \<open>profile\<close>, and a route that uses one
  placeholder name twice, named \<open>pair\<close>.\<close>

definition named_store :: "(panic + store) option \<Rightarrow> store" where
  "named_store r = (case r of Some (Inr h) \<Rightarrow> h | _ \<Rightarrow> [])"

definition reg_profile :: store where
  "reg_profile = named_store (Name (fst reg_users_id) (snd reg_users_id) ''profile'')"

definition reg_id_x_id :: "store \<times> nat" where
  "reg_id_x_id = Insert createRootRoute 0 ''/:id/x/:id'' []"

definition reg_pair :: store where
  "reg_pair = named_store (Name (fst reg_id_x_id) (snd reg_id_x_id) ''pair'')"

subsection \<open>The course of a search\<close>

text \<open>
  The states the outer loop of \<open>Search\<close> passes through, a state being the cursor,
  the index and the captured values at the head of the loop: the loop moves on by a
  literal child, by the dynamic child, or by a \<open>continue\<close> out of the backtracking
  loop after a dead end.
\<close>

definition dead_end :: "store \<Rightarrow> string list \<Rightarrow> nat \<Rightarrow> nat \<Rightarrow> bool" where
  "dead_end h chunks current i =
     (i < length chunks \<and> sub (h ! current) (chunks ! i) = None \<and>
      (if hasDynamicChild (h ! current) then sub (h ! current) [dynamic] else None) = None \<and>
      (if hasWildcardChild (h ! current) then sub (h ! current) [wildcard] else None) = None)"

inductive reaches ::
  "store \<Rightarrow> string list \<Rightarrow> nat \<times> nat \<times> Values \<Rightarrow> nat \<times> nat \<times> Values \<Rightarrow> bool"
  for h :: store and chunks :: "string list" where
  start: "reaches h chunks s s"
| literal:
    "reaches h chunks s (c, i, captured) \<Longrightarrow> i < length chunks \<Longrightarrow>
     sub (h ! c) (chunks ! i) = Some nxt \<Longrightarrow>
     reaches h chunks s (nxt, Suc i, captured)"
| dynamic_child:
    "reaches h chunks s (c, i, captured) \<Longrightarrow> i < length chunks \<Longrightarrow>
     sub (h ! c) (chunks ! i) = None \<Longrightarrow> hasDynamicChild (h ! c) \<Longrightarrow>
     sub (h ! c) [dynamic] = Some nxt \<Longrightarrow>
     reaches h chunks s (nxt, Suc i, Add (placeholder (h ! nxt)) (chunks ! i) captured)"
| resumed:
    "reaches h chunks s (c, i, captured) \<Longrightarrow> dead_end h chunks c i \<Longrightarrow>
     backtrack h chunks c (int i) captured = Some (Resume nxt j captured') \<Longrightarrow>
     reaches h chunks s (nxt, Suc j, captured')"

text \<open>
  The backtracking loop steps from a node to its parent when the parent offers no
  dynamic and no wildcard child other than the node it comes from; \<open>climbs h c r\<close>
  holds when such steps lead from \<open>c\<close> to \<open>r\<close>.
\<close>

definition no_alternative :: "store \<Rightarrow> nat \<Rightarrow> nat \<Rightarrow> bool" where
  "no_alternative h current par =
     (\<not> (hasDynamicChild (h ! par) \<and> sub (h ! par) [dynamic] \<noteq> Some current) \<and>
      \<not> (hasWildcardChild (h ! par) \<and> sub (h ! par) [wildcard] \<noteq> Some current))"

inductive climbs :: "store \<Rightarrow> nat \<Rightarrow> nat \<Rightarrow> bool" for h :: store where
  stay: "climbs h c c"
| up: "parent (h ! c) = Some par \<Longrightarrow> no_alternative h c par \<Longrightarrow> climbs h par r \<Longrightarrow> climbs h c r"

text \<open>
  \<open>Search\<close> only ever adds to \<open>captured\<close>: \<open>grows a b\<close> says that every key of
  \<open>a\<close> is still in \<open>b\<close>, with the values it had in front.
\<close>

definition grows :: "Values \<Rightarrow> Values \<Rightarrow> bool" where
  "grows a b = (\<forall>k vs. a k = Some vs \<longrightarrow> (\<exists>ws. b k = Some (vs @ ws)))"

subsection \<open>Stores grown by allocation\<close>

text \<open>
  A child is allocated after its parent, so in every store that \<open>Insert\<close> has built
  the children of a node lie behind it, and inside the store.
\<close>

definition store_ok :: "store \<Rightarrow> bool" where
  "store_ok h = (\<forall>n k m. n < length h \<and> sub (h ! n) k = Some m \<longrightarrow> n < m \<and> m < length h)"

text \<open>
  Likewise the parent of a node lies before it.
\<close>

definition parents_ok :: "store \<Rightarrow> bool" where
  "parents_ok h = (\<forall>n q. n < length h \<and> parent (h ! n) = Some q \<longrightarrow> q < n)"

text \<open>The node at the end of a path whose nodes exist: the reads of the loop of
  \<open>Insert\<close>, without its allocations.\<close>

fun existing_path :: "store \<Rightarrow> nat \<Rightarrow> string list \<Rightarrow> nat option" where
  "existing_path h current [] = Some current"
| "existing_path h current (seg # segs) =
     (case sub (h ! current) seg of
        Some nxt \<Rightarrow> existing_path h nxt segs
      | None \<Rightarrow> None)"

section \<open>Properties\<close>

lemmas trie_eval = Insert_def Clean_def createRootRoute_def new_child_def dynamic_def
  wildcard_def Let_def Search_def search_loop.simps backtrack.simps Add_def

subsection \<open>Splitting and cleaning a path with one open segment\<close>

lemma Split_no_slash: "CHR ''/'' \<notin> set s \<Longrightarrow> Split s = [s]"
  by (induction s) auto

lemma Split_append_slash:
  "CHR ''/'' \<notin> set a \<Longrightarrow> Split (a @ CHR ''/'' # b) = a # Split b"
  by (induction a) auto

lemma Split_users:
  assumes "CHR ''/'' \<notin> set seg"
  shows "Split (''/users/'' @ seg) = [[], ''users'', seg]"
proof -
  have "Split (''/users/'' @ seg) = [] # Split (''users'' @ CHR ''/'' # seg)"
    by simp
  also have "Split (''users'' @ CHR ''/'' # seg) = ''users'' # Split seg"
    by (rule Split_append_slash) simp
  finally show ?thesis
    using assms by (simp add: Split_no_slash)
qed

lemma Clean_users:
  assumes "CHR ''/'' \<notin> set seg" "seg \<noteq> []" "seg \<noteq> ''.''" "seg \<noteq> ''..''"
  shows "Clean (''/users/'' @ seg) = ''/users/'' @ seg"
  using assms by (simp add: Clean_def Split_users[simplified])

subsection \<open>Searching the example tries\<close>

text \<open>
  Claim C1. With \<open>/a/:x/c\<close> and \<open>/a/b/d\<close> registered, in either order,
  \<open>Search("/a/b/d", captured)\<close> returns the node registered for \<open>/a/b/d\<close>, which
  hangs below the literal node \<open>b\<close>, and leaves \<open>captured\<close> as it was;
  \<open>Search("/a/q/c", captured)\<close> returns the node registered for \<open>/a/:x/c\<close>, which
  hangs below the dynamic node \<open>:x\<close>, and adds the value \<open>q\<close> under \<open>x\<close>.
\<close>

theorem Search_literal_and_dynamic_branch:
  "Search (fst reg_a_b_d) 0 ''/a/b/d'' captured
     = Some (Inr (Some (snd reg_a_b_d), captured)) \<and>
   Search (fst reg_a_b_d) 0 ''/a/q/c'' captured
     = Some (Inr (Some (snd reg_a_x_c), Add ''x'' ''q'' captured)) \<and>
   map_option (\<lambda>n. pattern (fst reg_a_b_d ! n)) (parent (fst reg_a_b_d ! snd reg_a_b_d))
     = Some ''b'' \<and>
   map_option (\<lambda>n. pattern (fst reg_a_b_d ! n)) (parent (fst reg_a_b_d ! snd reg_a_x_c))
     = Some '':x'' \<and>
   Search (fst reg_a_x_c_second) 0 ''/a/b/d'' captured
     = Some (Inr (Some (snd reg_a_b_d_first), captured)) \<and>
   Search (fst reg_a_x_c_second) 0 ''/a/q/c'' captured
     = Some (Inr (Some (snd reg_a_x_c_second), Add ''x'' ''q'' captured)) \<and>
   Add ''x'' ''q'' Map.empty ''x'' = Some [''q'']"
  by (simp add: reg_a_b_d_def reg_a_x_c_def reg_a_x_c_second_def reg_a_b_d_first_def trie_eval)

subsection \<open>Captured values are never taken back\<close>

lemma grows_refl: "grows a a"
  by (simp add: grows_def)

lemma grows_trans: "grows a b \<Longrightarrow> grows b c \<Longrightarrow> grows a c"
  unfolding grows_def by fastforce

lemma grows_Add: "grows a (Add k v a)"
  by (simp add: grows_def Add_def)

lemma backtrack_grows:
  assumes "backtrack h chunks c i captured = Some y"
  shows "(\<forall>nxt j captured'. y = Resume nxt j captured' \<longrightarrow> grows captured captured') \<and>
         (\<forall>r captured'. y = Return r captured' \<longrightarrow> grows captured captured')"
proof (rule backtrack.raw_induct
    [where P = "\<lambda>h chunks c i captured y.
         (\<forall>nxt j captured'. y = Resume nxt j captured' \<longrightarrow> grows captured captured') \<and>
         (\<forall>r captured'. y = Return r captured' \<longrightarrow> grows captured captured')", OF _ assms])
  fix bt :: "store \<Rightarrow> string list \<Rightarrow> nat \<Rightarrow> int \<Rightarrow> Values \<Rightarrow> outcome option"
    and h :: store and chunks :: "string list" and c :: nat and i :: int
    and captured :: Values and y :: outcome
  assume IH: "\<And>h chunks c i captured y. bt h chunks c i captured = Some y \<Longrightarrow>
         (\<forall>nxt j captured'. y = Resume nxt j captured' \<longrightarrow> grows captured captured') \<and>
         (\<forall>r captured'. y = Return r captured' \<longrightarrow> grows captured captured')"
  assume body: "(case parent (h ! c) of
        None \<Rightarrow> Some (Return None captured)
      | Some par \<Rightarrow>
          (if hasDynamicChild (h ! par) \<and> sub (h ! par) [dynamic] \<noteq> Some c then
             (case sub (h ! par) [dynamic] of
                None \<Rightarrow> Some (Panicked NilDereference)
              | Some nxt \<Rightarrow>
                  (if 0 \<le> i - 1 \<and> i - 1 < int (length chunks)
                   then Some (Resume nxt (nat (i - 1))
                          (Add (placeholder (h ! nxt)) (chunks ! nat (i - 1)) captured))
                   else Some (Panicked IndexOutOfRange)))
           else if hasWildcardChild (h ! par) \<and> sub (h ! par) [wildcard] \<noteq> Some c then
             (case sub (h ! par) [wildcard] of
                None \<Rightarrow> Some (Panicked NilDereference)
              | Some nxt \<Rightarrow>
                  (if 0 \<le> i - 1 \<and> i - 1 \<le> int (length chunks)
                   then Some (Return (Some nxt)
                          (Add (placeholder (h ! nxt)) (Join (drop (nat (i - 1)) chunks)) captured))
                   else Some (Panicked IndexOutOfRange)))
           else bt h chunks par (i - 1) captured)) = Some y"
  show "(\<forall>nxt j captured'. y = Resume nxt j captured' \<longrightarrow> grows captured captured') \<and>
         (\<forall>r captured'. y = Return r captured' \<longrightarrow> grows captured captured')"
  proof (cases "parent (h ! c)")
    case None
    with body show ?thesis by (auto simp: grows_refl)
  next
    case (Some par)
    show ?thesis
    proof (cases "no_alternative h c par")
      case True
      with Some body have "bt h chunks par (i - 1) captured = Some y"
        by (auto simp: no_alternative_def split: if_splits)
      from IH[OF this] show ?thesis .
    next
      case False
      with Some body show ?thesis
        by (auto simp: no_alternative_def grows_Add split: if_splits option.splits)
    qed
  qed
qed

lemma search_loop_grows:
  assumes "search_loop h chunks c i captured = Some y"
  shows "\<forall>r captured'. y = Inr (r, captured') \<longrightarrow> grows captured captured'"
proof (rule search_loop.raw_induct
    [where P = "\<lambda>h chunks c i captured y.
         \<forall>r captured'. y = Inr (r, captured') \<longrightarrow> grows captured captured'", OF _ assms])
  fix sl :: "store \<Rightarrow> string list \<Rightarrow> nat \<Rightarrow> nat \<Rightarrow> Values
               \<Rightarrow> (panic + nat option \<times> Values) option"
    and h :: store and chunks :: "string list" and c :: nat and i :: nat
    and captured :: Values and y :: "panic + nat option \<times> Values"
  assume IH: "\<And>h chunks c i captured y. sl h chunks c i captured = Some y \<Longrightarrow>
         \<forall>r captured'. y = Inr (r, captured') \<longrightarrow> grows captured captured'"
  assume body: "(if i < length chunks then
        (case sub (h ! c) (chunks ! i) of
           Some nxt \<Rightarrow> sl h chunks nxt (Suc i) captured
         | None \<Rightarrow>
            (case (if hasDynamicChild (h ! c) then sub (h ! c) [dynamic] else None) of
               Some nxt \<Rightarrow>
                 sl h chunks nxt (Suc i)
                   (Add (placeholder (h ! nxt)) (chunks ! i) captured)
             | None \<Rightarrow>
                (case (if hasWildcardChild (h ! c) then sub (h ! c) [wildcard]
                       else None) of
                   Some nxt \<Rightarrow>
                     Some (Inr (Some nxt,
                       Add (placeholder (h ! nxt)) (Join (drop i chunks)) captured))
                 | None \<Rightarrow>
                    (case backtrack h chunks c (int i) captured of
                       None \<Rightarrow> None
                     | Some (Resume nxt j captured') \<Rightarrow>
                         sl h chunks nxt (Suc j) captured'
                     | Some (Return r captured') \<Rightarrow> Some (Inr (r, captured'))
                     | Some (Panicked e) \<Rightarrow> Some (Inl e)))))
      else Some (Inr (Some c, captured))) = Some y"
  show "\<forall>r captured'. y = Inr (r, captured') \<longrightarrow> grows captured captured'"
  proof (cases "i < length chunks")
    case False
    with body show ?thesis by (auto simp: grows_refl)
  next
    case lt: True
    show ?thesis
    proof (cases "sub (h ! c) (chunks ! i)")
      case (Some nxt)
      with body lt have "sl h chunks nxt (Suc i) captured = Some y" by simp
      from IH[OF this] show ?thesis .
    next
      case None
      note lit = None
      show ?thesis
      proof (cases "if hasDynamicChild (h ! c) then sub (h ! c) [dynamic] else None")
        case (Some nxt)
        with body lt lit
        have "sl h chunks nxt (Suc i) (Add (placeholder (h ! nxt)) (chunks ! i) captured)
                = Some y"
          by simp
        from IH[OF this] show ?thesis
          using grows_trans[OF grows_Add] by blast
      next
        case None
        note nodyn = None
        show ?thesis
        proof (cases "if hasWildcardChild (h ! c) then sub (h ! c) [wildcard] else None")
          case (Some nxt)
          with body lt lit nodyn show ?thesis by (auto simp: grows_Add)
        next
          case None
          with body lt lit nodyn
          have b: "(case backtrack h chunks c (int i) captured of
                         None \<Rightarrow> None
                       | Some (Resume nxt j captured') \<Rightarrow> sl h chunks nxt (Suc j) captured'
                       | Some (Return r captured') \<Rightarrow> Some (Inr (r, captured'))
                       | Some (Panicked e) \<Rightarrow> Some (Inl e)) = Some y"
            by simp
          then obtain oc where oc: "backtrack h chunks c (int i) captured = Some oc"
            by (cases "backtrack h chunks c (int i) captured") auto
          note bg = backtrack_grows[OF oc]
          show ?thesis
          proof (cases oc)
            case (Resume nxt j cap2)
            with b oc have "sl h chunks nxt (Suc j) cap2 = Some y" by simp
            from IH[OF this] have "\<forall>r captured'. y = Inr (r, captured') \<longrightarrow> grows cap2 captured'" .
            moreover have "grows captured cap2" using bg Resume by simp
            ultimately show ?thesis using grows_trans by blast
          next
            case (Return r cap2)
            with b oc bg show ?thesis by auto
          next
            case (Panicked e)
            with b oc show ?thesis by auto
          qed
        qed
      qed
    qed
  qed
qed

lemma Search_never_removes:
  "Search h p rt captured = Some (Inr (r, captured')) \<Longrightarrow> captured k = Some vs \<Longrightarrow>
     \<exists>ws. captured' k = Some (vs @ ws)"
  using search_loop_grows[of h "Split (Clean rt)" p 0 captured "Inr (r, captured')"]
  by (simp add: Search_def grows_def)

text \<open>
  Claim C10. With \<open>/a/:x/c\<close> and \<open>/a/*w\<close> registered, \<open>Search("/a/q/z", captured)\<close>
  on an empty \<open>captured\<close> goes from the node \<open>a\<close> into the dynamic child \<open>:x\<close> and
  records \<open>q\<close> under \<open>x\<close>; there it is at a dead end for \<open>z\<close>, and the backtracking
  loop returns the wildcard child of \<open>a\<close> after adding \<open>q/z\<close> under \<open>w\<close>. So
  \<open>Search\<close> returns the node of \<open>/a/*w\<close>, and \<open>captured\<close> then holds both
  \<open>x -> ["q"]\<close>, from the abandoned branch, and \<open>w -> ["q/z"]\<close>.
\<close>

theorem Search_keeps_abandoned_capture:
  "Search (fst reg_a_w) 0 ''/a/q/z'' Map.empty
     = Some (Inr (Some (snd reg_a_w), [''x'' \<mapsto> [''q''], ''w'' \<mapsto> [''q/z'']])) \<and>
   pattern (fst reg_a_w ! snd reg_a_w) = ''*w'' \<and>
   pattern (fst reg_a_w ! 3) = '':x'' \<and>
   search_loop (fst reg_a_w) [[], ''a'', ''q'', ''z''] 2 2 Map.empty
     = search_loop (fst reg_a_w) [[], ''a'', ''q'', ''z''] 3 3 [''x'' \<mapsto> [''q'']] \<and>
   dead_end (fst reg_a_w) [[], ''a'', ''q'', ''z''] 3 3 \<and>
   backtrack (fst reg_a_w) [[], ''a'', ''q'', ''z''] 3 3 [''x'' \<mapsto> [''q'']]
     = Some (Return (Some (snd reg_a_w)) [''x'' \<mapsto> [''q''], ''w'' \<mapsto> [''q/z'']])"
  by (simp add: reg_a_w_def reg_a_x_c_def trie_eval dead_end_def)

text \<open>
  Claim C3. Whenever the node under the cursor has a child under the text of the current
  segment, \<open>Search\<close> moves to that child and goes on with the next segment, with
  \<open>captured\<close> as it was, whether or not the node has a dynamic child. With
  \<open>/users/me\<close> and \<open>/users/:id\<close> registered, in either order, the node \<open>users\<close>
  has both the literal child \<open>me\<close> and a dynamic child, and
  \<open>Search("/users/me", captured)\<close> returns the node of \<open>/users/me\<close>, not the dynamic
  one, leaving \<open>captured\<close> as it was.
\<close>

theorem Search_prefers_literal_child:
  "(i < length chunks \<and> sub (h ! current) (chunks ! i) = Some nxt \<longrightarrow>
      search_loop h chunks current i captured = search_loop h chunks nxt (Suc i) captured) \<and>
   Search (fst reg_users_me) 0 ''/users/me'' captured
     = Some (Inr (Some (snd reg_users_me), captured)) \<and>
   snd reg_users_me \<noteq> snd reg_users_id \<and>
   map_option (\<lambda>u. (hasDynamicChild (fst reg_users_me ! u),
                     sub (fst reg_users_me ! u) [dynamic],
                     sub (fst reg_users_me ! u) ''me''))
       (parent (fst reg_users_me ! snd reg_users_me))
     = Some (True, Some (snd reg_users_id), Some (snd reg_users_me)) \<and>
   Search (fst reg_users_id_second) 0 ''/users/me'' captured
     = Some (Inr (Some (snd reg_users_me_first), captured)) \<and>
   snd reg_users_me_first \<noteq> snd reg_users_id_second \<and>
   map_option (\<lambda>u. (hasDynamicChild (fst reg_users_id_second ! u),
                     sub (fst reg_users_id_second ! u) [dynamic],
                     sub (fst reg_users_id_second ! u) ''me''))
       (parent (fst reg_users_id_second ! snd reg_users_me_first))
     = Some (True, Some (snd reg_users_id_second), Some (snd reg_users_me_first))"
proof (intro conjI impI)
  assume "i < length chunks \<and> sub (h ! current) (chunks ! i) = Some nxt"
  then show "search_loop h chunks current i captured = search_loop h chunks nxt (Suc i) captured"
    by (subst search_loop.simps) simp
qed (simp_all add: reg_users_me_def reg_users_id_def reg_users_id_second_def
       reg_users_me_first_def trie_eval)

theorem Search_prefers_literal_child_witness:
  "(2::nat) < length [[], ''users'', ''me''] \<and>
   sub (fst reg_users_me ! 2) ([[], ''users'', ''me''] ! 2) = Some 4 \<and>
   hasDynamicChild (fst reg_users_me ! 2) \<and>
   sub (fst reg_users_me ! 2) [dynamic] = Some 3 \<and>
   search_loop (fst reg_users_me) [[], ''users'', ''me''] 2 2 Map.empty
     = search_loop (fst reg_users_me) [[], ''users'', ''me''] 4 3 Map.empty"
  using Search_prefers_literal_child
    [where i = 2 and chunks = "[[], ''users'', ''me'']" and h = "fst reg_users_me"
       and current = 2 and nxt = 4 and captured = Map.empty]
  by (simp add: reg_users_me_def reg_users_id_def Insert_def Clean_def createRootRoute_def
       new_child_def dynamic_def wildcard_def Let_def)

text \<open>
  Claim C4. When the current segment has neither a literal nor a dynamic child to go to
  and the node has a wildcard child, \<open>Search\<close> returns that child at once, whatever
  segments follow and whatever hangs below the child, after adding the remaining
  segments joined by slashes under the child's placeholder. For the registered pattern
  \<open>/files/*rest\<close>, \<open>Search("/files/a/b/c", captured)\<close> returns the wildcard node and
  adds \<open>a/b/c\<close> under \<open>rest\<close>; it does so too when the wildcard node has a child
  \<open>c\<close>.
\<close>

theorem Search_wildcard_is_terminal:
  "(i < length chunks \<and> sub (h ! current) (chunks ! i) = None \<and>
    (hasDynamicChild (h ! current) \<longrightarrow> sub (h ! current) [dynamic] = None) \<and>
    hasWildcardChild (h ! current) \<and> sub (h ! current) [wildcard] = Some w \<longrightarrow>
      search_loop h chunks current i captured
        = Some (Inr (Some w, Add (placeholder (h ! w)) (Join (drop i chunks)) captured))) \<and>
   Search (fst reg_files_rest) 0 ''/files/a/b/c'' captured
     = Some (Inr (Some (snd reg_files_rest), Add ''rest'' ''a/b/c'' captured)) \<and>
   Add ''rest'' ''a/b/c'' Map.empty = [''rest'' \<mapsto> [''a/b/c'']] \<and>
   pattern (fst reg_files_rest ! snd reg_files_rest) = ''*rest'' \<and>
   Search (fst reg_files_rest_c) 0 ''/files/a/b/c'' captured
     = Some (Inr (Some (snd reg_files_rest), Add ''rest'' ''a/b/c'' captured)) \<and>
   sub (fst reg_files_rest_c ! snd reg_files_rest) ''c'' = Some (snd reg_files_rest_c) \<and>
   snd reg_files_rest_c \<noteq> snd reg_files_rest"
proof (intro conjI impI)
  assume "i < length chunks \<and> sub (h ! current) (chunks ! i) = None \<and>
    (hasDynamicChild (h ! current) \<longrightarrow> sub (h ! current) [dynamic] = None) \<and>
    hasWildcardChild (h ! current) \<and> sub (h ! current) [wildcard] = Some w"
  then show "search_loop h chunks current i captured
        = Some (Inr (Some w, Add (placeholder (h ! w)) (Join (drop i chunks)) captured))"
    by (subst search_loop.simps) auto
qed (simp_all add: reg_files_rest_def reg_files_rest_c_def trie_eval)

theorem Search_wildcard_is_terminal_witness:
  "(2::nat) < length [[], ''files'', ''a'', ''b'', ''c''] \<and>
   sub (fst reg_files_rest_c ! 2) ([[], ''files'', ''a'', ''b'', ''c''] ! 2) = None \<and>
   \<not> hasDynamicChild (fst reg_files_rest_c ! 2) \<and>
   hasWildcardChild (fst reg_files_rest_c ! 2) \<and>
   sub (fst reg_files_rest_c ! 2) [wildcard] = Some 3 \<and>
   search_loop (fst reg_files_rest_c) [[], ''files'', ''a'', ''b'', ''c''] 2 2 Map.empty
     = Some (Inr (Some 3, [''rest'' \<mapsto> [''a/b/c'']]))"
  using Search_wildcard_is_terminal
    [where i = 2 and chunks = "[[], ''files'', ''a'', ''b'', ''c'']" and h = "fst reg_files_rest_c"
       and current = 2 and w = 3 and captured = Map.empty]
  by (simp add: reg_files_rest_def reg_files_rest_c_def Insert_def Clean_def createRootRoute_def
       new_child_def dynamic_def wildcard_def Let_def Add_def)

text \<open>
  Claim C5, as stated, fails for a segment that is itself a key of the node: \<open>Insert\<close>
  stores the dynamic child under its pattern text as well as under the reserved key, and
  \<open>Search\<close> looks a segment up as a literal key first. \<open>Search("/users/:id", captured)\<close>
  returns the node of \<open>/users/:id\<close> through the key \<open>:id\<close> and records nothing.
\<close>

theorem Search_dynamic_own_pattern_counterexample:
  "Search (fst reg_users_id) 0 ''/users/:id'' Map.empty
     = Some (Inr (Some (snd reg_users_id), Map.empty)) \<and>
   Add ''id'' '':id'' Map.empty \<noteq> Map.empty"
  by (simp add: reg_users_id_def trie_eval)

text \<open>
  Claim C5, amended. For the registered pattern \<open>/users/:id\<close>,
  \<open>Search("/users/42", captured)\<close> returns the node registered for that pattern and
  adds \<open>42\<close> under \<open>id\<close>, the pattern without its marker. The same holds for every
  single segment in place of \<open>42\<close> that \<open>path.Clean\<close> keeps (it has no slash and is
  none of the empty segment, \<open>.\<close> and \<open>..\<close>) and that is neither the reserved key
  \<open>:\<close> nor the pattern text \<open>:id\<close>.
\<close>

theorem Search_dynamic_segment:
  "Search (fst reg_users_id) 0 ''/users/42'' captured
     = Some (Inr (Some (snd reg_users_id), Add ''id'' ''42'' captured)) \<and>
   Add ''id'' ''42'' Map.empty = [''id'' \<mapsto> [''42'']] \<and>
   pattern (fst reg_users_id ! snd reg_users_id) = '':id'' \<and>
   placeholder (fst reg_users_id ! snd reg_users_id) = ''id'' \<and>
   (CHR ''/'' \<notin> set seg \<and> seg \<notin> {[], ''.'', ''..''} \<and> seg \<notin> {'':'', '':id''} \<longrightarrow>
      Search (fst reg_users_id) 0 (''/users/'' @ seg) captured
        = Some (Inr (Some (snd reg_users_id), Add ''id'' seg captured)))"
proof (intro conjI impI)
  assume a: "CHR ''/'' \<notin> set seg \<and> seg \<notin> {[], ''.'', ''..''} \<and> seg \<notin> {'':'', '':id''}"
  then have c: "Split (Clean (''/users/'' @ seg)) = [[], ''users'', seg]"
    using Clean_users[of seg] Split_users[of seg] by simp
  show "Search (fst reg_users_id) 0 (''/users/'' @ seg) captured
        = Some (Inr (Some (snd reg_users_id), Add ''id'' seg captured))"
    unfolding Search_def c using a
    by (simp add: reg_users_id_def Insert_def Clean_def createRootRoute_def new_child_def
          dynamic_def wildcard_def Let_def search_loop.simps backtrack.simps)
qed (simp_all add: reg_users_id_def trie_eval)

theorem Search_dynamic_segment_witness:
  "CHR ''/'' \<notin> set ''alice'' \<and> ''alice'' \<notin> {[], ''.'', ''..''} \<and>
   ''alice'' \<notin> {'':'', '':id''} \<and>
   Search (fst reg_users_id) 0 ''/users/alice'' Map.empty
     = Some (Inr (Some (snd reg_users_id), Add ''id'' ''alice'' Map.empty))"
  using Search_dynamic_segment [where seg = "''alice''" and captured = Map.empty]
  by simp

subsection \<open>Registration wraps the handler\<close>

lemmas node_eval = Insert_def Clean_def createRootRoute_def new_child_def dynamic_def
  wildcard_def Let_def

text \<open>
  \<open>For\<close> stores the handler wrapped once by the chain of the node. \<open>Post\<close> wraps
  the handler by the chain and hands the result to \<open>For\<close>, which wraps it again; \<open>Put\<close>,
  \<open>Delete\<close>, \<open>Patch\<close>, \<open>Options\<close>, \<open>Head\<close> and \<open>Any\<close> are written like \<open>Post\<close>,
  \<open>Get\<close> hands the bare handler to \<open>For\<close>.
\<close>

lemma For_stores:
  "p < length h \<Longrightarrow> hmap (h ! p) \<noteq> None \<Longrightarrow>
     \<exists>h'. For h p meth f = Inr h' \<and>
          lookup_handler h' p meth = Some (Connect f (cc (h ! p))) \<and> cc (h' ! p) = cc (h ! p)
          \<and> length h' = length h"
  by (auto simp: For_def lookup_handler_def)

lemma Post_stores:
  "p < length h \<Longrightarrow> hmap (h ! p) \<noteq> None \<Longrightarrow>
     \<exists>h'. Post h p f = Inr h' \<and>
          lookup_handler h' p MethodPost = Some (Connect (Connect f (cc (h ! p))) (cc (h ! p)))"
  by (auto simp: Post_def For_def lookup_handler_def)

lemma reg_x_counting_eval:
  "snd reg_x_counting = 2" "length (fst reg_x_counting) = 3"
  "cc (fst reg_x_counting ! 2) = [counting]" "hmap (fst reg_x_counting ! 2) = Some Map.empty"
  by (simp_all add: reg_x_counting_def Insert_def Clean_def createRootRoute_def new_child_def
        dynamic_def wildcard_def Let_def)

lemmas reg_eval = stored_status_def For_def lookup_handler_def Connect_def counting_def
    done_handler_def request_def reg_x_counting_eval

text \<open>
  Claim C2 says that every registration stores the handler wrapped exactly once by the
  chain of the node. On the node of \<open>/x\<close> with the one middleware \<open>counting\<close>, the
  handler wrapped once leaves status 1, and so do the handlers stored by \<open>For\<close> and
  \<open>Get\<close>; the handlers stored by \<open>Post\<close>, \<open>Put\<close>, \<open>Delete\<close>, \<open>Patch\<close>,
  \<open>Options\<close>, \<open>Head\<close> and \<open>Any\<close> leave status 2: the middleware runs twice.
\<close>

theorem Post_wraps_twice:
  "status (fst (Connect done_handler (cc (fst reg_x_counting ! snd reg_x_counting))
                  (request MethodPost))) = 1 \<and>
   stored_status (For (fst reg_x_counting) (snd reg_x_counting) MethodPost done_handler)
     (snd reg_x_counting) MethodPost = Some 1 \<and>
   stored_status (Get_route (fst reg_x_counting) (snd reg_x_counting) done_handler)
     (snd reg_x_counting) MethodGet = Some 1 \<and>
   stored_status (Post (fst reg_x_counting) (snd reg_x_counting) done_handler)
     (snd reg_x_counting) MethodPost = Some 2 \<and>
   stored_status (Put (fst reg_x_counting) (snd reg_x_counting) done_handler)
     (snd reg_x_counting) MethodPut = Some 2 \<and>
   stored_status (Delete (fst reg_x_counting) (snd reg_x_counting) done_handler)
     (snd reg_x_counting) MethodDelete = Some 2 \<and>
   stored_status (Patch (fst reg_x_counting) (snd reg_x_counting) done_handler)
     (snd reg_x_counting) MethodPatch = Some 2 \<and>
   stored_status (Options (fst reg_x_counting) (snd reg_x_counting) done_handler)
     (snd reg_x_counting) MethodOptions = Some 2 \<and>
   stored_status (Head (fst reg_x_counting) (snd reg_x_counting) done_handler)
     (snd reg_x_counting) MethodHead = Some 2 \<and>
   stored_status (Any (fst reg_x_counting) (snd reg_x_counting) done_handler)
     (snd reg_x_counting) [wildcard] = Some 2"
  by (simp add: reg_eval Get_route_def Post_def Put_def Delete_def Patch_def Options_def
        Head_def Any_def)

subsection \<open>Dispatch\<close>

text \<open>
  Claim C7. \<open>Invoke\<close> takes the handler registered for the method of the request, or
  else the one registered under the catch-all key; with neither it returns \<open>false\<close>
  and leaves the context alone. With a handler it returns \<open>true\<close> whatever the
  handler returns: after a structured error the context carries that error's code and
  the error itself, after any other error the code 500 and a structured error made of
  500 and the error's text, and without an error the context is as the handler left it.
\<close>

theorem Invoke_dispatch:
  "((lookup_handler h p (Method ctx) = Some fn \<or>
     lookup_handler h p (Method ctx) = None \<and> lookup_handler h p anyone = Some fn) \<longrightarrow>
      Invoke h p ctx =
        (True,
         case fn ctx of
           (ctx', None) \<Rightarrow> ctx'
         | (ctx', Some (Error c msg)) \<Rightarrow>
             ctx'\<lparr>status := c, written := written ctx' @ [Error c msg]\<rparr>
         | (ctx', Some (OtherError d)) \<Rightarrow>
             ctx'\<lparr>status := 500, written := written ctx' @ [Error 500 d]\<rparr>)) \<and>
   (lookup_handler h p (Method ctx) = None \<and> lookup_handler h p anyone = None \<longrightarrow>
      Invoke h p ctx = (False, ctx))"
  by (auto simp: Invoke_def Code_def Json_def NewError_def StatusInternalServerError_def
        split: prod.splits option.splits err.splits)

lemma reg_x_eval:
  "snd reg_x = 2" "length (fst reg_x) = 3"
  "cc (fst reg_x ! 2) = []" "hmap (fst reg_x ! 2) = Some Map.empty"
  by (simp_all add: reg_x_def node_eval)

theorem Invoke_dispatch_witness:
  "lookup_handler reg_x_get 2 (Method (request ''GET'')) = Some missing_handler \<and>
   Invoke reg_x_get 2 (request ''GET'')
     = (True, \<lparr>Method = ''GET'', status = 404, written = [Error 404 ''no such user'']\<rparr>) \<and>
   lookup_handler reg_x_any 2 (Method (request ''GET'')) = None \<and>
   lookup_handler reg_x_any 2 anyone = Some broken_handler \<and>
   Invoke reg_x_any 2 (request ''GET'')
     = (True, \<lparr>Method = ''GET'', status = 500, written = [Error 500 ''boom'']\<rparr>) \<and>
   lookup_handler (fst reg_x) 2 (Method (request ''GET'')) = None \<and>
   lookup_handler (fst reg_x) 2 anyone = None \<and>
   Invoke (fst reg_x) 2 (request ''GET'') = (False, request ''GET'')"
  using Invoke_dispatch [where h = reg_x_get and p = 2 and ctx = "request ''GET''"
                           and fn = missing_handler]
    Invoke_dispatch [where h = reg_x_any and p = 2 and ctx = "request ''GET''"
                      and fn = broken_handler]
    Invoke_dispatch [where h = "fst reg_x" and p = 2 and ctx = "request ''GET''"]
  by (simp add: reg_x_get_def reg_x_any_def after_def Get_route_def Any_def For_def
        reg_x_eval lookup_handler_def Connect_def MethodGet_def anyone_def wildcard_def
        request_def missing_handler_def broken_handler_def)

subsection \<open>The end of a search\<close>

lemma backtrack_nil_climbs:
  assumes "backtrack h chunks c i captured = Some y"
  shows "y = Return None captured' \<longrightarrow>
           captured' = captured \<and> (\<exists>r. climbs h c r \<and> parent (h ! r) = None)"
proof (rule backtrack.raw_induct
    [where P = "\<lambda>h chunks c i captured y. y = Return None captured' \<longrightarrow>
           captured' = captured \<and> (\<exists>r. climbs h c r \<and> parent (h ! r) = None)", OF _ assms])
  fix bt :: "store \<Rightarrow> string list \<Rightarrow> nat \<Rightarrow> int \<Rightarrow> Values \<Rightarrow> outcome option"
    and h :: store and chunks :: "string list" and c :: nat and i :: int
    and captured :: Values and y :: outcome
  assume IH: "\<And>h chunks c i captured y. bt h chunks c i captured = Some y \<Longrightarrow>
           y = Return None captured' \<longrightarrow>
           captured' = captured \<and> (\<exists>r. climbs h c r \<and> parent (h ! r) = None)"
  assume body: "(case parent (h ! c) of
        None \<Rightarrow> Some (Return None captured)
      | Some par \<Rightarrow>
          (if hasDynamicChild (h ! par) \<and> sub (h ! par) [dynamic] \<noteq> Some c then
             (case sub (h ! par) [dynamic] of
                None \<Rightarrow> Some (Panicked NilDereference)
              | Some nxt \<Rightarrow>
                  (if 0 \<le> i - 1 \<and> i - 1 < int (length chunks)
                   then Some (Resume nxt (nat (i - 1))
                          (Add (placeholder (h ! nxt)) (chunks ! nat (i - 1)) captured))
                   else Some (Panicked IndexOutOfRange)))
           else if hasWildcardChild (h ! par) \<and> sub (h ! par) [wildcard] \<noteq> Some c then
             (case sub (h ! par) [wildcard] of
                None \<Rightarrow> Some (Panicked NilDereference)
              | Some nxt \<Rightarrow>
                  (if 0 \<le> i - 1 \<and> i - 1 \<le> int (length chunks)
                   then Some (Return (Some nxt)
                          (Add (placeholder (h ! nxt)) (Join (drop (nat (i - 1)) chunks)) captured))
                   else Some (Panicked IndexOutOfRange)))
           else bt h chunks par (i - 1) captured)) = Some y"
  show "y = Return None captured' \<longrightarrow>
           captured' = captured \<and> (\<exists>r. climbs h c r \<and> parent (h ! r) = None)"
  proof
    assume y: "y = Return None captured'"
    show "captured' = captured \<and> (\<exists>r. climbs h c r \<and> parent (h ! r) = None)"
    proof (cases "parent (h ! c)")
      case None
      with body y show ?thesis by (auto intro: climbs.stay)
    next
      case (Some par)
      show ?thesis
      proof (cases "no_alternative h c par")
        case True
        with Some body have "bt h chunks par (i - 1) captured = Some y"
          by (auto simp: no_alternative_def split: if_splits)
        from IH[OF this] y obtain r
          where "captured' = captured" "climbs h par r" "parent (h ! r) = None"
          by blast
        with Some True show ?thesis by (auto intro: climbs.up)
      next
        case False
        with Some body y show ?thesis
          by (auto simp: no_alternative_def split: if_splits option.splits)
      qed
    qed
  qed
qed

lemma reaches_search_loop:
  assumes "reaches h chunks s t"
  shows "search_loop h chunks (fst s) (fst (snd s)) (snd (snd s))
       = search_loop h chunks (fst t) (fst (snd t)) (snd (snd t))"
  using assms
proof (induction rule: reaches.induct)
  case start
  show ?case by simp
next
  case (literal s c i captured nxt)
  have "search_loop h chunks c i captured = search_loop h chunks nxt (Suc i) captured"
    using literal.hyps(2,3) by (subst search_loop.simps) simp
  with literal.IH show ?case by simp
next
  case (dynamic_child s c i captured nxt)
  have "search_loop h chunks c i captured
      = search_loop h chunks nxt (Suc i) (Add (placeholder (h ! nxt)) (chunks ! i) captured)"
    using dynamic_child.hyps(2-5) by (subst search_loop.simps) simp
  with dynamic_child.IH show ?case by simp
next
  case (resumed s c i captured nxt j captured')
  have "search_loop h chunks c i captured = search_loop h chunks nxt (Suc j) captured'"
    using resumed.hyps(2,3) by (subst search_loop.simps) (simp add: dead_end_def)
  with resumed.IH show ?case by simp
qed

lemma search_loop_nil:
  assumes "search_loop h chunks c i captured = Some y"
  shows "y = Inr (None, captured') \<longrightarrow> reaches h chunks s (c, i, captured) \<longrightarrow>
           (\<exists>d k r. reaches h chunks s (d, k, captured') \<and> dead_end h chunks d k \<and>
              climbs h d r \<and> parent (h ! r) = None)"
proof (rule search_loop.raw_induct
    [where P = "\<lambda>h chunks c i captured y.
         y = Inr (None, captured') \<longrightarrow> reaches h chunks s (c, i, captured) \<longrightarrow>
           (\<exists>d k r. reaches h chunks s (d, k, captured') \<and> dead_end h chunks d k \<and>
              climbs h d r \<and> parent (h ! r) = None)", OF _ assms])
  fix sl :: "store \<Rightarrow> string list \<Rightarrow> nat \<Rightarrow> nat \<Rightarrow> Values
               \<Rightarrow> (panic + nat option \<times> Values) option"
    and h :: store and chunks :: "string list" and c :: nat and i :: nat
    and captured :: Values and y :: "panic + nat option \<times> Values"
  assume IH: "\<And>h chunks c i captured y. sl h chunks c i captured = Some y \<Longrightarrow>
         y = Inr (None, captured') \<longrightarrow> reaches h chunks s (c, i, captured) \<longrightarrow>
           (\<exists>d k r. reaches h chunks s (d, k, captured') \<and> dead_end h chunks d k \<and>
              climbs h d r \<and> parent (h ! r) = None)"
  assume body: "(if i < length chunks then
        (case sub (h ! c) (chunks ! i) of
           Some nxt \<Rightarrow> sl h chunks nxt (Suc i) captured
         | None \<Rightarrow>
            (case (if hasDynamicChild (h ! c) then sub (h ! c) [dynamic] else None) of
               Some nxt \<Rightarrow>
                 sl h chunks nxt (Suc i)
                   (Add (placeholder (h ! nxt)) (chunks ! i) captured)
             | None \<Rightarrow>
                (case (if hasWildcardChild (h ! c) then sub (h ! c) [wildcard]
                       else None) of
                   Some nxt \<Rightarrow>
                     Some (Inr (Some nxt,
                       Add (placeholder (h ! nxt)) (Join (drop i chunks)) captured))
                 | None \<Rightarrow>
                    (case backtrack h chunks c (int i) captured of
                       None \<Rightarrow> None
                     | Some (Resume nxt j captured') \<Rightarrow>
                         sl h chunks nxt (Suc j) captured'
                     | Some (Return r captured') \<Rightarrow> Some (Inr (r, captured'))
                     | Some (Panicked e) \<Rightarrow> Some (Inl e)))))
      else Some (Inr (Some c, captured))) = Some y"
  show "y = Inr (None, captured') \<longrightarrow> reaches h chunks s (c, i, captured) \<longrightarrow>
           (\<exists>d k r. reaches h chunks s (d, k, captured') \<and> dead_end h chunks d k \<and>
              climbs h d r \<and> parent (h ! r) = None)"
  proof (intro impI)
    assume y: "y = Inr (None, captured')"
    assume rch: "reaches h chunks s (c, i, captured)"
    have lt: "i < length chunks"
      using body y by (cases "i < length chunks") auto
    show "\<exists>d k r. reaches h chunks s (d, k, captured') \<and> dead_end h chunks d k \<and>
              climbs h d r \<and> parent (h ! r) = None"
    proof (cases "sub (h ! c) (chunks ! i)")
      case (Some nxt)
      with body lt have "sl h chunks nxt (Suc i) captured = Some y" by simp
      moreover have "reaches h chunks s (nxt, Suc i, captured)"
        using rch lt Some by (rule reaches.literal)
      ultimately show ?thesis using IH y by blast
    next
      case None
      note lit = None
      show ?thesis
      proof (cases "if hasDynamicChild (h ! c) then sub (h ! c) [dynamic] else None")
        case (Some nxt)
        then have dyn: "hasDynamicChild (h ! c)" "sub (h ! c) [dynamic] = Some nxt"
          by (auto split: if_splits)
        from body lt lit Some
        have "sl h chunks nxt (Suc i) (Add (placeholder (h ! nxt)) (chunks ! i) captured)
                = Some y"
          by simp
        moreover have "reaches h chunks s
            (nxt, Suc i, Add (placeholder (h ! nxt)) (chunks ! i) captured)"
          using rch lt lit dyn by (rule reaches.dynamic_child)
        ultimately show ?thesis using IH y by blast
      next
        case None
        note nodyn = None
        show ?thesis
        proof (cases "if hasWildcardChild (h ! c) then sub (h ! c) [wildcard] else None")
          case (Some nxt)
          with body lt lit nodyn y show ?thesis by simp
        next
          case None
          then have de: "dead_end h chunks c i"
            using lt lit nodyn by (simp add: dead_end_def)
          from body lt lit nodyn None
          have b: "(case backtrack h chunks c (int i) captured of
                         None \<Rightarrow> None
                       | Some (Resume nxt j captured') \<Rightarrow> sl h chunks nxt (Suc j) captured'
                       | Some (Return r captured') \<Rightarrow> Some (Inr (r, captured'))
                       | Some (Panicked e) \<Rightarrow> Some (Inl e)) = Some y"
            by simp
          then obtain oc where oc: "backtrack h chunks c (int i) captured = Some oc"
            by (cases "backtrack h chunks c (int i) captured") auto
          show ?thesis
          proof (cases oc)
            case (Resume nxt j cap2)
            with b oc have "sl h chunks nxt (Suc j) cap2 = Some y" by simp
            moreover have "reaches h chunks s (nxt, Suc j, cap2)"
              using rch de oc[unfolded Resume] by (rule reaches.resumed)
            ultimately show ?thesis using IH y by blast
          next
            case (Return r cap2)
            with b oc y have "r = None" "cap2 = captured'" by auto
            with oc Return backtrack_nil_climbs[of h chunks c "int i" captured oc captured']
            obtain rt where "captured' = captured" "climbs h c rt" "parent (h ! rt) = None"
              by auto
            with rch de show ?thesis by blast
          next
            case (Panicked e)
            with b oc y show ?thesis by simp
          qed
        qed
      qed
    qed
  qed
qed

text \<open>
  Claim C6. When the loop of \<open>Search\<close> arrives at the end of the segments of the
  cleaned path, \<open>Search\<close> returns the node the cursor is on, with the values captured
  on the way; nothing is asked about handlers, and after registering \<open>/a/b/d\<close> the
  search for \<open>/a\<close> returns the node \<open>a\<close>, which has no handler for any method.
  When \<open>Search\<close> returns \<open>nil\<close>, its loop has arrived at a node with no literal,
  dynamic or wildcard child for the current segment, and from there every step to a
  parent found no other dynamic or wildcard child, up to a node without parent.
\<close>

theorem Search_end_of_path_and_no_match:
  "(reaches h (Split (Clean rt)) (p, 0, captured) (c, length (Split (Clean rt)), captured')
      \<longrightarrow> Search h p rt captured = Some (Inr (Some c, captured'))) \<and>
   (Search h p rt captured = Some (Inr (None, captured')) \<longrightarrow>
      (\<exists>d k r. reaches h (Split (Clean rt)) (p, 0, captured) (d, k, captured') \<and>
         dead_end h (Split (Clean rt)) d k \<and> climbs h d r \<and> parent (h ! r) = None)) \<and>
   Search (fst reg_a_b_d) 0 ''/a'' captured = Some (Inr (Some 2, captured)) \<and>
   pattern (fst reg_a_b_d ! 2) = ''a'' \<and>
   lookup_handler (fst reg_a_b_d) 2 meth = None"
proof (intro conjI impI)
  assume "reaches h (Split (Clean rt)) (p, 0, captured)
            (c, length (Split (Clean rt)), captured')"
  from reaches_search_loop[OF this]
  have "search_loop h (Split (Clean rt)) p 0 captured
      = search_loop h (Split (Clean rt)) c (length (Split (Clean rt))) captured'"
    by simp
  also have "\<dots> = Some (Inr (Some c, captured'))"
    by (subst search_loop.simps) simp
  finally show "Search h p rt captured = Some (Inr (Some c, captured'))"
    by (simp add: Search_def)
next
  assume "Search h p rt captured = Some (Inr (None, captured'))"
  then have "search_loop h (Split (Clean rt)) p 0 captured = Some (Inr (None, captured'))"
    by (simp add: Search_def)
  from search_loop_nil[OF this, of captured' "(p, 0, captured)"]
  show "\<exists>d k r. reaches h (Split (Clean rt)) (p, 0, captured) (d, k, captured') \<and>
         dead_end h (Split (Clean rt)) d k \<and> climbs h d r \<and> parent (h ! r) = None"
    by (simp add: reaches.start)
qed (simp_all add: reg_a_b_d_def reg_a_x_c_def trie_eval lookup_handler_def)

lemma reg_a_b_d_nodes:
  "sub (fst reg_a_b_d ! 0) [] = Some (Suc 0)" "sub (fst reg_a_b_d ! Suc 0) ''a'' = Some 2"
  by (simp_all add: reg_a_b_d_def reg_a_x_c_def node_eval)

lemma reaches_a:
  "reaches (fst reg_a_b_d) [[], ''a''] (0, 0, Map.empty) (2, Suc (Suc 0), Map.empty)"
proof -
  have r0: "reaches (fst reg_a_b_d) [[], ''a''] (0, 0, Map.empty) (0, 0, Map.empty)"
    by (rule reaches.start)
  have r1: "reaches (fst reg_a_b_d) [[], ''a''] (0, 0, Map.empty) (Suc 0, Suc 0, Map.empty)"
    by (rule reaches.literal[OF r0]) (simp_all add: reg_a_b_d_nodes)
  show ?thesis
    by (rule reaches.literal[OF r1]) (simp_all add: reg_a_b_d_nodes)
qed

theorem Search_end_of_path_and_no_match_witness:
  "reaches (fst reg_a_b_d) (Split (Clean ''/a'')) (0, 0, Map.empty)
     (2, length (Split (Clean ''/a'')), Map.empty) \<and>
   Search (fst reg_a_b_d) 0 ''/a'' Map.empty = Some (Inr (Some 2, Map.empty)) \<and>
   Search (fst reg_a_b_d) 0 ''/a/b/z'' Map.empty = Some (Inr (None, [''x'' \<mapsto> [''b'']])) \<and>
   (\<exists>d k r. reaches (fst reg_a_b_d) (Split (Clean ''/a/b/z'')) (0, 0, Map.empty)
               (d, k, [''x'' \<mapsto> [''b'']]) \<and>
      dead_end (fst reg_a_b_d) (Split (Clean ''/a/b/z'')) d k \<and>
      climbs (fst reg_a_b_d) d r \<and> parent (fst reg_a_b_d ! r) = None)"
proof -
  have chunks: "Split (Clean ''/a'') = [[], ''a'']"
    by (simp add: Clean_def)
  have r: "reaches (fst reg_a_b_d) (Split (Clean ''/a'')) (0, 0, Map.empty)
             (2, length (Split (Clean ''/a'')), Map.empty)"
    unfolding chunks using reaches_a by simp
  have s: "Search (fst reg_a_b_d) 0 ''/a/b/z'' Map.empty
             = Some (Inr (None, [''x'' \<mapsto> [''b'']]))"
    by (simp add: reg_a_b_d_def reg_a_x_c_def trie_eval)
  have 1: "Search (fst reg_a_b_d) 0 ''/a'' Map.empty = Some (Inr (Some 2, Map.empty))"
    using Search_end_of_path_and_no_match
            [where h = "fst reg_a_b_d" and rt = "''/a''" and p = 0 and captured = Map.empty
               and c = 2 and captured' = Map.empty] r
    by blast
  have 2: "\<exists>d k r. reaches (fst reg_a_b_d) (Split (Clean ''/a/b/z'')) (0, 0, Map.empty)
               (d, k, [''x'' \<mapsto> [''b'']]) \<and>
      dead_end (fst reg_a_b_d) (Split (Clean ''/a/b/z'')) d k \<and>
      climbs (fst reg_a_b_d) d r \<and> parent (fst reg_a_b_d ! r) = None"
    using Search_end_of_path_and_no_match
            [where h = "fst reg_a_b_d" and rt = "''/a/b/z''" and p = 0
               and captured = Map.empty and captured' = "[''x'' \<mapsto> [''b'']]"] s
    by blast
  show ?thesis using r 1 s 2 by blast
qed

subsection \<open>Registering a route again\<close>

lemma store_ok_createRootRoute: "store_ok createRootRoute"
  by (simp add: store_ok_def createRootRoute_def)

lemma length_new_child: "length (new_child h c seg) = Suc (length h)"
  by (simp add: new_child_def Let_def)

lemma new_child_other:
  "j < length h \<Longrightarrow> j \<noteq> c \<Longrightarrow> new_child h c seg ! j = h ! j"
  by (simp add: new_child_def Let_def nth_append)

lemma new_child_last: "sub (new_child h c seg ! length h) = Map.empty"
  by (simp add: new_child_def Let_def nth_append)

lemma new_child_sub:
  "c < length h \<Longrightarrow>
   sub (new_child h c seg ! c) k = Some m \<Longrightarrow> sub (h ! c) k = Some m \<or> m = length h"
  by (auto simp: new_child_def Let_def nth_append split: if_splits)

lemma new_child_seg:
  "c < length h \<Longrightarrow> sub (new_child h c seg ! c) seg = Some (length h)"
  by (simp add: new_child_def Let_def nth_append)

lemma store_okD:
  "store_ok h \<Longrightarrow> n < length h \<Longrightarrow> sub (h ! n) k = Some m \<Longrightarrow> n < m \<and> m < length h"
  unfolding store_ok_def by blast

lemma store_ok_new_child:
  assumes "store_ok h" "c < length h"
  shows "store_ok (new_child h c seg)"
  unfolding store_ok_def
proof (intro allI impI)
  fix n k m
  assume a: "n < length (new_child h c seg) \<and> sub (new_child h c seg ! n) k = Some m"
  then have n: "n < Suc (length h)" by (simp add: length_new_child)
  consider "n = length h" | "n = c" | "n < length h" "n \<noteq> c"
    using n by linarith
  then show "n < m \<and> m < length (new_child h c seg)"
  proof cases
    case 1
    with a show ?thesis by (simp add: new_child_last)
  next
    case 2
    with a assms(2) have "sub (h ! c) k = Some m \<or> m = length h"
      using new_child_sub[of c h seg k m] by simp
    then show ?thesis
    proof
      assume "sub (h ! c) k = Some m"
      from store_okD[OF assms(1,2) this] 2 show ?thesis
        by (simp add: length_new_child)
    next
      assume "m = length h"
      with 2 assms(2) show ?thesis by (simp add: length_new_child)
    qed
  next
    case 3
    with a have "sub (h ! n) k = Some m" by (simp add: new_child_other)
    from store_okD[OF assms(1) 3(1) this] show ?thesis
      by (simp add: length_new_child)
  qed
qed

lemma insert_loop_props:
  "store_ok h \<Longrightarrow> c < length h \<Longrightarrow> insert_loop h c segs = (h', n) \<Longrightarrow>
     store_ok h' \<and> n < length h' \<and> length h \<le> length h' \<and> (\<forall>j<c. h' ! j = h ! j) \<and>
     existing_path h' c segs = Some n"
proof (induction segs arbitrary: h c)
  case Nil
  then show ?case by simp
next
  case (Cons seg segs)
  show ?case
  proof (cases "sub (h ! c) seg")
    case (Some nxt)
    have nxt: "c < nxt" "nxt < length h"
      using store_okD[OF Cons.prems(1,2) Some] by simp_all
    from Cons.prems Some have "insert_loop h nxt segs = (h', n)" by simp
    from Cons.IH[OF Cons.prems(1) nxt(2) this]
    have ih: "store_ok h'" "n < length h'" "length h \<le> length h'"
      "\<forall>j<nxt. h' ! j = h ! j" "existing_path h' nxt segs = Some n"
      by auto
    from ih(4) nxt(1) have "h' ! c = h ! c" by simp
    with Some ih nxt show ?thesis by simp
  next
    case None
    let ?h1 = "new_child h c seg"
    have ok1: "store_ok ?h1" using Cons.prems(1,2) by (rule store_ok_new_child)
    have lt1: "length h < length ?h1" by (simp add: length_new_child)
    from Cons.prems None have "insert_loop ?h1 (length h) segs = (h', n)" by simp
    from Cons.IH[OF ok1 lt1 this]
    have ih: "store_ok h'" "n < length h'" "length ?h1 \<le> length h'"
      "\<forall>j<length h. h' ! j = ?h1 ! j" "existing_path h' (length h) segs = Some n"
      by auto
    from ih(4) Cons.prems(2) have "h' ! c = ?h1 ! c" by simp
    then have "sub (h' ! c) seg = Some (length h)"
      using Cons.prems(2) by (simp add: new_child_seg)
    moreover have "\<forall>j<c. h' ! j = h ! j"
      using ih(4) Cons.prems(2) by (simp add: new_child_other)
    ultimately show ?thesis using ih by (simp add: length_new_child)
  qed
qed

lemma existing_path_insert_loop:
  "existing_path h c segs = Some n \<Longrightarrow> insert_loop h c segs = (h, n)"
  by (induction segs arbitrary: c) (auto split: option.splits)

lemma existing_path_cong:
  "(\<And>j. sub (h1 ! j) = sub (h ! j)) \<Longrightarrow> existing_path h1 c segs = existing_path h c segs"
  by (induction segs arbitrary: c) (auto split: option.splits)

lemma store_ok_cong:
  assumes "length h1 = length h" "\<And>j. sub (h1 ! j) = sub (h ! j)" "store_ok h"
  shows "store_ok h1"
  unfolding store_ok_def
proof (intro allI impI)
  fix n k m
  assume "n < length h1 \<and> sub (h1 ! n) k = Some m"
  then have "n < length h" "sub (h ! n) k = Some m"
    using assms(1,2) by simp_all
  from store_okD[OF assms(3) this] show "n < m \<and> m < length h1"
    using assms(1) by simp
qed

lemma Insert_props:
  assumes "store_ok h" "p < length h" "Insert h p rt chain = (h1, n)"
  shows "store_ok h1" "n < length h1" "length h \<le> length h1" "hmap (h1 ! n) \<noteq> None"
    "existing_path h1 p (Split (Clean rt)) = Some n"
proof -
  obtain h' where il: "insert_loop h p (Split (Clean rt)) = (h', n)"
    and h1: "h1 = h'[n := (h' ! n)\<lparr>hmap := (case hmap (h' ! n) of None \<Rightarrow> Some Map.empty
                                                | Some m \<Rightarrow> Some m),
                                  cc := cc (h' ! n) @ chain\<rparr>]"
    using assms(3) by (auto simp: Insert_def Let_def split: prod.splits)
  from insert_loop_props[OF assms(1,2) il]
  have p: "store_ok h'" "n < length h'" "length h \<le> length h'"
    "existing_path h' p (Split (Clean rt)) = Some n"
    by auto
  have subs: "\<And>j. sub (h1 ! j) = sub (h' ! j)"
    unfolding h1 by (case_tac "j = n") (simp_all add: p(2))
  have len: "length h1 = length h'" by (simp add: h1)
  show "store_ok h1" using len subs p(1) by (rule store_ok_cong)
  show "n < length h1" using p(2) len by simp
  show "length h \<le> length h1" using p(3) len by simp
  show "hmap (h1 ! n) \<noteq> None" using p(2) by (simp add: h1 split: option.splits)
  show "existing_path h1 p (Split (Clean rt)) = Some n"
    using p(4) existing_path_cong[of h1 h', OF subs] by simp
qed

lemma Insert_existing:
  assumes "existing_path h p (Split (Clean rt)) = Some n"
  shows "fst (Insert h p rt chain) = h[n := (h ! n)\<lparr>hmap := (case hmap (h ! n) of None \<Rightarrow> Some Map.empty
                                                | Some m \<Rightarrow> Some m),
                                  cc := cc (h ! n) @ chain\<rparr>]"
    and "snd (Insert h p rt chain) = n"
  using existing_path_insert_loop[OF assms] by (simp_all add: Insert_def Let_def)

lemma For_props:
  assumes "n < length h" "hmap (h ! n) \<noteq> None"
  shows "\<exists>h'. For h n meth f = Inr h' \<and> length h' = length h \<and>
           (\<forall>j. sub (h' ! j) = sub (h ! j)) \<and> hmap (h' ! n) \<noteq> None \<and>
           cc (h' ! n) = cc (h ! n) \<and>
           lookup_handler h' n meth = Some (Connect f (cc (h ! n)))"
proof -
  obtain m where m: "hmap (h ! n) = Some m" using assms(2) by auto
  let ?h' = "h[n := (h ! n)\<lparr>hmap := Some (m(meth \<mapsto> Connect f (cc (h ! n))))\<rparr>]"
  have "For h n meth f = Inr ?h'" by (simp add: For_def m)
  moreover have "\<forall>j. sub (?h' ! j) = sub (h ! j)"
    using assms(1) by (auto simp: nth_list_update)
  ultimately show ?thesis
    using assms(1) by (auto simp: lookup_handler_def)
qed

lemma store_ok_Insert:
  "store_ok h \<Longrightarrow> p < length h \<Longrightarrow> store_ok (fst (Insert h p rt chain))"
  using Insert_props(1)[of h p rt chain] by (cases "Insert h p rt chain") simp

lemma store_ok_For:
  assumes "store_ok h" "For h n meth f = Inr h'"
  shows "store_ok h'"
proof -
  obtain m where "hmap (h ! n) = Some m"
    and h': "h' = h[n := (h ! n)\<lparr>hmap := Some (m(meth \<mapsto> Connect f (cc (h ! n))))\<rparr>]"
    using assms(2) by (auto simp: For_def split: option.splits)
  have "sub (h' ! j) = sub (h ! j)" for j
    unfolding h' by (cases "j = n"; cases "n < length h") (simp_all add: list_update_beyond)
  moreover have "length h' = length h" by (simp add: h')
  ultimately show ?thesis using assms(1) store_ok_cong by blast
qed

lemma store_ok_Name:
  assumes "store_ok h" "Name h p nm = Some (Inr h')"
  shows "store_ok h'"
proof -
  let ?h1 = "h[p := (h ! p)\<lparr>name := nm\<rparr>]"
  obtain root m where h': "h' = ?h1[root := (?h1 ! root)\<lparr>named := Some (m(nm \<mapsto> p))\<rparr>]"
    using assms(2) by (auto simp: Name_def Let_def split: option.splits)
  have 1: "sub (?h1 ! j) = sub (h ! j)" for j
    by (cases "j = p"; cases "p < length h") (simp_all add: list_update_beyond)
  have "sub (h' ! j) = sub (?h1 ! j)" for j
    unfolding h' by (cases "j = root"; cases "root < length ?h1")
      (simp_all add: list_update_beyond)
  with 1 have "sub (h' ! j) = sub (h ! j)" for j by simp
  moreover have "length h' = length h" by (simp add: h')
  ultimately show ?thesis using assms(1) store_ok_cong by blast
qed

text \<open>
  Claim C9. In a store built by allocation, inserting a pattern, registering a handler
  for a method on the returned node, inserting the same pattern again and registering
  another handler for the same method never panics; the second \<open>Insert\<close> returns the
  same node and allocates nothing, so the number of nodes stays what it was after the
  first, and the node then holds for the method the second handler, wrapped by the
  chain of the node, and nothing of the first.
\<close>

theorem Insert_again_same_node:
  "store_ok h \<and> p < length h \<longrightarrow>
     (\<exists>h1 n h2 h3 h4.
        Insert h p rt chain1 = (h1, n) \<and> For h1 n meth f1 = Inr h2 \<and>
        Insert h2 p rt chain2 = (h3, n) \<and> For h3 n meth f2 = Inr h4 \<and>
        length h2 = length h1 \<and> length h3 = length h1 \<and> length h4 = length h1 \<and>
        lookup_handler h2 n meth = Some (Connect f1 (cc (h1 ! n))) \<and>
        cc (h3 ! n) = cc (h1 ! n) @ chain2 \<and>
        lookup_handler h4 n meth = Some (Connect f2 (cc (h3 ! n))))"
proof
  assume a: "store_ok h \<and> p < length h"
  obtain h1 n where i1: "Insert h p rt chain1 = (h1, n)" by (cases "Insert h p rt chain1")
  note p1 = Insert_props[OF conjunct1[OF a] conjunct2[OF a] i1]
  from For_props[OF p1(2) p1(4), of meth f1] obtain h2
    where f1: "For h1 n meth f1 = Inr h2" and l2: "length h2 = length h1"
    and s2: "\<forall>j. sub (h2 ! j) = sub (h1 ! j)" and hm2: "hmap (h2 ! n) \<noteq> None"
    and c2: "cc (h2 ! n) = cc (h1 ! n)"
    and lk2: "lookup_handler h2 n meth = Some (Connect f1 (cc (h1 ! n)))"
    by blast
  have ep2: "existing_path h2 p (Split (Clean rt)) = Some n"
    using p1(5) existing_path_cong[of h2 h1] s2 by simp
  obtain h3 where h3: "h3 = fst (Insert h2 p rt chain2)" by simp
  have i2: "Insert h2 p rt chain2 = (h3, n)"
    using Insert_existing[OF ep2, of chain2] h3 by (simp add: prod_eq_iff)
  have h3': "h3 = h2[n := (h2 ! n)\<lparr>hmap := (case hmap (h2 ! n) of None \<Rightarrow> Some Map.empty
                                                | Some m \<Rightarrow> Some m),
                                  cc := cc (h2 ! n) @ chain2\<rparr>]"
    using Insert_existing(1)[OF ep2, of chain2] h3 by simp
  have n2: "n < length h2" using p1(2) l2 by simp
  have l3: "length h3 = length h1" using l2 by (simp add: h3')
  have c3: "cc (h3 ! n) = cc (h1 ! n) @ chain2" using n2 c2 by (simp add: h3')
  have hm3: "hmap (h3 ! n) \<noteq> None" using n2 hm2 by (simp add: h3' split: option.splits)
  have n3: "n < length h3" using l3 p1(2) by simp
  from For_props[OF n3 hm3, of meth f2] obtain h4
    where f2: "For h3 n meth f2 = Inr h4" and l4: "length h4 = length h3"
    and lk4: "lookup_handler h4 n meth = Some (Connect f2 (cc (h3 ! n)))"
    by blast
  show "\<exists>h1 n h2 h3 h4.
        Insert h p rt chain1 = (h1, n) \<and> For h1 n meth f1 = Inr h2 \<and>
        Insert h2 p rt chain2 = (h3, n) \<and> For h3 n meth f2 = Inr h4 \<and>
        length h2 = length h1 \<and> length h3 = length h1 \<and> length h4 = length h1 \<and>
        lookup_handler h2 n meth = Some (Connect f1 (cc (h1 ! n))) \<and>
        cc (h3 ! n) = cc (h1 ! n) @ chain2 \<and>
        lookup_handler h4 n meth = Some (Connect f2 (cc (h3 ! n)))"
    using i1 f1 i2 f2 l2 l3 l4 lk2 c3 lk4 by auto
qed

theorem Insert_again_same_node_witness:
  "store_ok createRootRoute \<and> 0 < length createRootRoute \<and>
     (\<exists>h1 n h2 h3 h4.
        Insert createRootRoute 0 ''/users/:id'' [] = (h1, n) \<and>
        For h1 n MethodGet done_handler = Inr h2 \<and>
        Insert h2 0 ''/users/:id'' [counting] = (h3, n) \<and>
        For h3 n MethodGet missing_handler = Inr h4 \<and>
        length h2 = length h1 \<and> length h3 = length h1 \<and> length h4 = length h1 \<and>
        lookup_handler h2 n MethodGet = Some (Connect done_handler (cc (h1 ! n))) \<and>
        cc (h3 ! n) = cc (h1 ! n) @ [counting] \<and>
        lookup_handler h4 n MethodGet = Some (Connect missing_handler (cc (h3 ! n))))"
  using Insert_again_same_node [where h = createRootRoute and p = 0 and rt = "''/users/:id''"
      and ?chain1.0 = "[]" and ?chain2.0 = "[counting]" and meth = MethodGet
      and ?f1.0 = done_handler and ?f2.0 = missing_handler]
  by (simp add: store_ok_createRootRoute) (simp add: createRootRoute_def)

subsection \<open>Named routes\<close>

text \<open>Both walks of \<open>From\<close> go from a node to its parent, which was allocated
  earlier, so they end.\<close>

lemma parents_okD: "parents_ok h \<Longrightarrow> n < length h \<Longrightarrow> parent (h ! n) = Some q \<Longrightarrow> q < n"
  unfolding parents_ok_def by blast

lemma parents_ok_createRootRoute: "parents_ok createRootRoute"
  unfolding parents_ok_def
proof (intro allI impI)
  fix n q
  assume a: "n < length createRootRoute \<and> parent (createRootRoute ! n) = Some q"
  then have "n = 0" by (simp add: createRootRoute_def)
  with a show "q < n" by (simp add: createRootRoute_def)
qed

lemma new_child_parent:
  "j < length h \<Longrightarrow> parent (new_child h c seg ! j) = parent (h ! j)"
  "parent (new_child h c seg ! length h) = Some c"
  by (cases "j = c") (simp_all add: new_child_def Let_def nth_append)

lemma parents_ok_new_child:
  assumes "parents_ok h" "c < length h"
  shows "parents_ok (new_child h c seg)"
  unfolding parents_ok_def
proof (intro allI impI)
  fix n q
  assume a: "n < length (new_child h c seg) \<and> parent (new_child h c seg ! n) = Some q"
  then have "n < length h \<or> n = length h"
    by (auto simp: length_new_child)
  then show "q < n"
  proof
    assume n: "n < length h"
    with a have "parent (h ! n) = Some q" by (simp add: new_child_parent)
    from parents_okD[OF assms(1) n this] show ?thesis .
  next
    assume "n = length h"
    with a assms(2) show ?thesis by (simp add: new_child_parent)
  qed
qed

lemma parents_ok_insert_loop:
  "store_ok h \<Longrightarrow> parents_ok h \<Longrightarrow> c < length h \<Longrightarrow> insert_loop h c segs = (h', n) \<Longrightarrow>
     parents_ok h'"
proof (induction segs arbitrary: h c)
  case Nil
  then show ?case by simp
next
  case (Cons seg segs)
  show ?case
  proof (cases "sub (h ! c) seg")
    case (Some nxt)
    have "nxt < length h"
      using store_okD[OF Cons.prems(1,3) Some] by simp
    moreover from Cons.prems Some have "insert_loop h nxt segs = (h', n)" by simp
    ultimately show ?thesis using Cons.IH Cons.prems(1,2) by blast
  next
    case None
    let ?h1 = "new_child h c seg"
    have "store_ok ?h1" using Cons.prems(1,3) by (rule store_ok_new_child)
    moreover have "parents_ok ?h1" using Cons.prems(2,3) by (rule parents_ok_new_child)
    moreover have "length h < length ?h1" by (simp add: length_new_child)
    moreover from Cons.prems None have "insert_loop ?h1 (length h) segs = (h', n)" by simp
    ultimately show ?thesis using Cons.IH by blast
  qed
qed

lemma parents_ok_cong:
  assumes "length h1 = length h" "\<And>j. parent (h1 ! j) = parent (h ! j)" "parents_ok h"
  shows "parents_ok h1"
  unfolding parents_ok_def
proof (intro allI impI)
  fix n q
  assume "n < length h1 \<and> parent (h1 ! n) = Some q"
  then have "n < length h" "parent (h ! n) = Some q"
    using assms(1,2) by simp_all
  from parents_okD[OF assms(3) this] show "q < n" .
qed

lemma parents_ok_Insert:
  assumes "store_ok h" "parents_ok h" "p < length h"
  shows "parents_ok (fst (Insert h p rt chain))"
proof -
  obtain h' n where il: "insert_loop h p (Split (Clean rt)) = (h', n)"
    by (cases "insert_loop h p (Split (Clean rt))")
  let ?h1 = "h'[n := (h' ! n)\<lparr>hmap := (case hmap (h' ! n) of None \<Rightarrow> Some Map.empty
                                                | Some m \<Rightarrow> Some m),
                                  cc := cc (h' ! n) @ chain\<rparr>]"
  have h1: "fst (Insert h p rt chain) = ?h1"
    using il by (simp add: Insert_def Let_def)
  have ok: "parents_ok h'" using assms il by (rule parents_ok_insert_loop)
  have "parent (?h1 ! j) = parent (h' ! j)" for j
    by (cases "j = n"; cases "n < length h'") (simp_all add: list_update_beyond)
  moreover have "length ?h1 = length h'" by simp
  ultimately have "parents_ok ?h1" using ok parents_ok_cong by blast
  then show ?thesis by (simp add: h1)
qed

lemma parents_ok_For:
  assumes "parents_ok h" "For h n meth f = Inr h'"
  shows "parents_ok h'"
proof -
  obtain m where "hmap (h ! n) = Some m"
    and h': "h' = h[n := (h ! n)\<lparr>hmap := Some (m(meth \<mapsto> Connect f (cc (h ! n))))\<rparr>]"
    using assms(2) by (auto simp: For_def split: option.splits)
  have "parent (h' ! j) = parent (h ! j)" for j
    unfolding h' by (cases "j = n"; cases "n < length h") (simp_all add: list_update_beyond)
  moreover have "length h' = length h" by (simp add: h')
  ultimately show ?thesis using assms(1) parents_ok_cong by blast
qed

lemma parents_ok_Name:
  assumes "parents_ok h" "Name h p nm = Some (Inr h')"
  shows "parents_ok h'"
proof -
  let ?h1 = "h[p := (h ! p)\<lparr>name := nm\<rparr>]"
  obtain root m where h': "h' = ?h1[root := (?h1 ! root)\<lparr>named := Some (m(nm \<mapsto> p))\<rparr>]"
    using assms(2) by (auto simp: Name_def Let_def split: option.splits)
  have 1: "parent (?h1 ! j) = parent (h ! j)" for j
    by (cases "j = p"; cases "p < length h") (simp_all add: list_update_beyond)
  have "parent (h' ! j) = parent (?h1 ! j)" for j
    unfolding h' by (cases "j = root"; cases "root < length ?h1")
      (simp_all add: list_update_beyond)
  with 1 have "parent (h' ! j) = parent (h ! j)" for j by simp
  moreover have "length h' = length h" by (simp add: h')
  ultimately show ?thesis using assms(1) parents_ok_cong by blast
qed

lemma find_root_terminates:
  "parents_ok h \<Longrightarrow> p < length h \<Longrightarrow>
     \<exists>root. find_root h p = Some root \<and> root \<le> p \<and> parent (h ! root) = None"
proof (induction p rule: less_induct)
  case (less p)
  show ?case
  proof (cases "parent (h ! p)")
    case None
    then have "find_root h p = Some p" by (subst find_root.simps) simp
    with None show ?thesis by simp
  next
    case (Some q)
    have q: "q < p" using parents_okD[OF less.prems(1,2) Some] .
    with less.prems have "q < length h" by simp
    from less.IH[OF q less.prems(1) this] obtain root
      where "find_root h q = Some root" "root \<le> q" "parent (h ! root) = None"
      by blast
    moreover have "find_root h p = find_root h q"
      using Some by (subst find_root.simps) simp
    ultimately show ?thesis using q by auto
  qed
qed

lemma from_loop_terminates:
  "parents_ok h \<Longrightarrow> t < length h \<Longrightarrow> \<exists>res. from_loop h (Some t) v seg = Some res"
proof (induction t arbitrary: v seg rule: less_induct)
  case (less t)
  have next_step: "\<exists>res. from_loop h (parent (h ! t)) v' seg' = Some res" for v' seg'
  proof (cases "parent (h ! t)")
    case None
    then show ?thesis by (subst from_loop.simps) simp
  next
    case (Some q)
    have q: "q < t" using parents_okD[OF less.prems(1,2) Some] .
    with less.prems have "q < length h" by simp
    from less.IH[OF q less.prems(1) this] Some show ?thesis by simp
  qed
  show ?case
  proof (cases "pattern (h ! t) = []")
    case True
    then show ?thesis by (subst from_loop.simps) simp
  next
    case False
    show ?thesis
    proof (cases "Has v (placeholder (h ! t))")
      case True
      with False have "from_loop h (Some t) v seg
        = from_loop h (parent (h ! t)) (Del (placeholder (h ! t)) v)
            (seg @ [Get v (placeholder (h ! t))])"
        by (subst from_loop.simps) simp
      with next_step show ?thesis by simp
    next
      case nh: False
      with False have "from_loop h (Some t) v seg
        = from_loop h (parent (h ! t)) v (seg @ [pattern (h ! t)])"
        by (subst from_loop.simps) simp
      with next_step show ?thesis by simp
    qed
  qed
qed

text \<open>
  Claim C8. For the node of \<open>/users/:id\<close> named \<open>profile\<close>,
  \<open>From("profile", {id: "7"})\<close> yields \<open>/users/7\<close> and leaves no value for \<open>id\<close>
  behind. A node whose placeholder has a value in \<open>v\<close> contributes the first such
  value, and the walk goes on to the parent with that key removed; a node without one
  contributes its pattern text. So in \<open>/:id/x/:id\<close>, named \<open>pair\<close>, the value goes
  to the last segment and the first keeps its pattern text. A name that the root does
  not know yields \<open>nil\<close> and leaves \<open>v\<close> as it was. In a store where every
  parent was allocated before its children, the walk to the root and the walk that
  collects the segments both come to an end.
\<close>

theorem Name_From_round_trip:
  "From reg_profile 0 ''profile'' [''id'' \<mapsto> [''7'']] = Some (Some ''/users/7'', Map.empty) \<and>
   lookup_named reg_profile 0 ''profile'' = Some (snd reg_users_id) \<and>
   name (reg_profile ! snd reg_users_id) = ''profile'' \<and>
   From reg_pair 0 ''pair'' [''id'' \<mapsto> [''7'']] = Some (Some ''/:id/x/7'', Map.empty) \<and>
   (pattern (h ! n) \<noteq> [] \<and> Has v (placeholder (h ! n)) \<longrightarrow>
      from_loop h (Some n) v seg
        = from_loop h (parent (h ! n)) (Del (placeholder (h ! n)) v)
            (seg @ [Get v (placeholder (h ! n))]) \<and>
      \<not> Has (Del (placeholder (h ! n)) v) (placeholder (h ! n))) \<and>
   (pattern (h ! n) \<noteq> [] \<and> \<not> Has v (placeholder (h ! n)) \<longrightarrow>
      from_loop h (Some n) v seg = from_loop h (parent (h ! n)) v (seg @ [pattern (h ! n)])) \<and>
   (find_root h p = Some root \<and> lookup_named h root nm = None \<longrightarrow>
      From h p nm v = Some (None, v)) \<and>
   From reg_profile 0 ''nobody'' v = Some (None, v) \<and>
   (parents_ok h \<and> p < length h \<longrightarrow>
      (\<exists>r. find_root h p = Some r \<and> parent (h ! r) = None)) \<and>
   (parents_ok h \<and> n < length h \<longrightarrow> (\<exists>res. from_loop h (Some n) v seg = Some res))"
proof (intro conjI impI)
  assume "parents_ok h \<and> p < length h"
  then show "\<exists>r. find_root h p = Some r \<and> parent (h ! r) = None"
    using find_root_terminates[of h p] by blast
next
  assume "parents_ok h \<and> n < length h"
  then show "\<exists>res. from_loop h (Some n) v seg = Some res"
    using from_loop_terminates[of h n v seg] by blast
next
  assume "pattern (h ! n) \<noteq> [] \<and> Has v (placeholder (h ! n))"
  then show "from_loop h (Some n) v seg
        = from_loop h (parent (h ! n)) (Del (placeholder (h ! n)) v)
            (seg @ [Get v (placeholder (h ! n))])"
    by (subst from_loop.simps) simp
next
  show "\<not> Has (Del (placeholder (h ! n)) v) (placeholder (h ! n))"
    by (simp add: Has_def Del_def)
next
  assume "pattern (h ! n) \<noteq> [] \<and> \<not> Has v (placeholder (h ! n))"
  then show "from_loop h (Some n) v seg
        = from_loop h (parent (h ! n)) v (seg @ [pattern (h ! n)])"
    by (subst from_loop.simps) simp
next
  assume "find_root h p = Some root \<and> lookup_named h root nm = None"
  then show "From h p nm v = Some (None, v)"
    by (simp add: From_def)
qed (simp_all add: reg_profile_def reg_pair_def reg_id_x_id_def named_store_def Name_def
       reg_users_id_def node_eval find_root.simps From_def from_loop.simps lookup_named_def
       Has_def Get_def Del_def write_segments_def)

lemma parents_ok_reg_pair: "parents_ok reg_pair"
proof -
  have "parents_ok (fst reg_id_x_id)"
    unfolding reg_id_x_id_def
    using store_ok_createRootRoute parents_ok_createRootRoute
    by (rule parents_ok_Insert) (simp add: createRootRoute_def)
  moreover have "Name (fst reg_id_x_id) (snd reg_id_x_id) ''pair'' = Some (Inr reg_pair)"
    by (simp add: reg_pair_def reg_id_x_id_def named_store_def Name_def node_eval
          find_root.simps)
  ultimately show ?thesis by (rule parents_ok_Name)
qed

lemma reg_pair_eval:
  "pattern (reg_pair ! 4) = '':id''" "placeholder (reg_pair ! 4) = ''id''"
  "pattern (reg_pair ! 2) = '':id''" "placeholder (reg_pair ! 2) = ''id''"
  "parent (reg_pair ! 4) = Some 3" "parent (reg_pair ! 2) = Some 1" "length reg_pair = 5"
  by (simp_all add: reg_pair_def reg_id_x_id_def named_store_def Name_def node_eval
        find_root.simps)

theorem Name_From_round_trip_witness:
  "pattern (reg_pair ! 4) \<noteq> [] \<and> Has [''id'' \<mapsto> [''7'']] (placeholder (reg_pair ! 4)) \<and>
   from_loop reg_pair (Some 4) [''id'' \<mapsto> [''7'']] []
     = from_loop reg_pair (Some 3) Map.empty [''7''] \<and>
   pattern (reg_pair ! 2) \<noteq> [] \<and> \<not> Has Map.empty (placeholder (reg_pair ! 2)) \<and>
   from_loop reg_pair (Some 2) Map.empty [''7'', ''x'']
     = from_loop reg_pair (Some 1) Map.empty [''7'', ''x'', '':id''] \<and>
   find_root reg_profile 3 = Some 0 \<and> lookup_named reg_profile 0 ''nobody'' = None \<and>
   From reg_profile 3 ''nobody'' [''id'' \<mapsto> [''7'']] = Some (None, [''id'' \<mapsto> [''7'']]) \<and>
   parents_ok reg_pair \<and> 4 < length reg_pair \<and>
   (\<exists>r. find_root reg_pair 4 = Some r \<and> parent (reg_pair ! r) = None) \<and>
   (\<exists>res. from_loop reg_pair (Some 4) [''id'' \<mapsto> [''7'']] [] = Some res)"
proof -
  let ?v = "[''id'' \<mapsto> [''7'']] :: Values"
  have h1: "pattern (reg_pair ! 4) \<noteq> [] \<and> Has ?v (placeholder (reg_pair ! 4))"
    by (simp add: reg_pair_eval Has_def)
  have h2: "pattern (reg_pair ! 2) \<noteq> [] \<and> \<not> Has Map.empty (placeholder (reg_pair ! 2))"
    by (simp add: reg_pair_eval Has_def)
  have h3: "find_root reg_profile 3 = Some 0 \<and> lookup_named reg_profile 0 ''nobody'' = None"
    by (simp add: reg_profile_def named_store_def Name_def reg_users_id_def node_eval
          find_root.simps lookup_named_def)
  have h4: "parents_ok reg_pair \<and> 4 < length reg_pair"
    by (simp add: parents_ok_reg_pair reg_pair_eval)
  have c1: "from_loop reg_pair (Some 4) ?v []
        = from_loop reg_pair (parent (reg_pair ! 4)) (Del (placeholder (reg_pair ! 4)) ?v)
            ([] @ [Get ?v (placeholder (reg_pair ! 4))])"
    using Name_From_round_trip [where h = reg_pair and n = 4 and v = ?v and seg = "[]"] h1
    by blast
  have c2: "from_loop reg_pair (Some 2) Map.empty [''7'', ''x'']
        = from_loop reg_pair (parent (reg_pair ! 2)) Map.empty
            ([''7'', ''x''] @ [pattern (reg_pair ! 2)])"
    using Name_From_round_trip [where h = reg_pair and n = 2 and v = Map.empty
                                  and seg = "[''7'', ''x'']"] h2
    by blast
  have c3: "From reg_profile 3 ''nobody'' ?v = Some (None, ?v)"
    using Name_From_round_trip [where h = reg_profile and p = 3 and root = 0
                                  and nm = "''nobody''" and v = ?v] h3
    by blast
  have c4: "\<exists>r. find_root reg_pair 4 = Some r \<and> parent (reg_pair ! r) = None"
    using Name_From_round_trip [where h = reg_pair and p = 4] h4
    by blast
  have c5: "\<exists>res. from_loop reg_pair (Some 4) ?v [] = Some res"
    using Name_From_round_trip [where h = reg_pair and n = 4 and v = ?v and seg = "[]"] h4
    by blast
  from c1 have c1': "from_loop reg_pair (Some 4) ?v []
        = from_loop reg_pair (Some 3) Map.empty [''7'']"
    by (simp add: reg_pair_eval Get_def Del_def)
  from c2 have c2': "from_loop reg_pair (Some 2) Map.empty [''7'', ''x'']
        = from_loop reg_pair (Some 1) Map.empty [''7'', ''x'', '':id'']"
    by (simp add: reg_pair_eval)
  show ?thesis
    using h1 h2 h3 h4 c1' c2' c3 c4 c5 by blast
qed

end
